theory Spec2Isabelle
  imports Complex_Main "HOL-Library.Log_Nat"
begin

section \<open>Python numbers\<close>

text \<open>
  The engine computes with Python \<open>float\<close>s (IEEE 754 binary64, round to nearest, ties to
  even) and unbounded Python \<open>int\<close>s. A float is modelled by its exact rational value, or
  one of the three non-finite values; every arithmetic operation computes the exact
  rational result and rounds it with \<open>fl\<close>. The sign of a zero is not represented: no
  operation of this program observes it (division by a zero raises whatever its sign).
\<close>

datatype pyfloat = Fin rat | PInf | NInf | NaN

datatype pyerror = ValueError string | OverflowError | ZeroDivisionError

definition pybind :: "pyerror + 'a \<Rightarrow> ('a \<Rightarrow> pyerror + 'b) \<Rightarrow> pyerror + 'b" where
  "pybind r f = (case r of Inl e \<Rightarrow> Inl e | Inr v \<Rightarrow> f v)"

text \<open>\<open>expo x\<close> is the binary exponent of a non-zero \<open>x\<close>: \<open>2 powi expo x \<le> \<bar>x\<bar> < 2 powi (expo x + 1)\<close>.\<close>

definition expo :: "rat \<Rightarrow> int" where
  "expo x = (if 1 \<le> \<bar>x\<bar> then bitlen \<lfloor>\<bar>x\<bar>\<rfloor> - 1 else - bitlen (\<lceil>1 / \<bar>x\<bar>\<rceil> - 1))"

definition round_half_even :: "rat \<Rightarrow> int" where
  "round_half_even x =
     (let f = \<lfloor>x\<rfloor>; d = x - of_int f
      in if d < 1 / 2 then f else if 1 / 2 < d then f + 1 else if even f then f else f + 1)"

text \<open>
  The spacing of binary64 numbers around \<open>x\<close>: 53 significant bits, and the fixed spacing
  \<open>2 powi - 1074\<close> of the subnormal range below \<open>2 powi - 1022\<close>.
\<close>

definition quantum :: "rat \<Rightarrow> rat" where
  "quantum x = 2 powi (max (expo x) (- 1022) - 52)"

definition rnd :: "rat \<Rightarrow> rat" where
  "rnd x = (if x = 0 then 0 else of_int (round_half_even (x / quantum x)) * quantum x)"

text \<open>
  Rounding overflows to an infinity when the rounded value reaches \<open>2 ^ 1024\<close>, that is,
  when its exponent exceeds 1023.
\<close>

definition too_large :: "rat \<Rightarrow> bool" where
  "too_large y = (y \<noteq> 0 \<and> 1024 \<le> expo y)"

definition fl :: "rat \<Rightarrow> pyfloat" where
  "fl x = (let y = rnd x
           in if too_large y then (if 0 < y then PInf else NInf) else Fin y)"

definition is_double :: "rat \<Rightarrow> bool" where
  "is_double x = (rnd x = x \<and> \<not> too_large x)"

definition fneg :: "pyfloat \<Rightarrow> pyfloat" where
  "fneg a = (case a of Fin x \<Rightarrow> Fin (- x) | PInf \<Rightarrow> NInf | NInf \<Rightarrow> PInf | NaN \<Rightarrow> NaN)"

definition fabs :: "pyfloat \<Rightarrow> pyfloat" where
  "fabs a = (case a of Fin x \<Rightarrow> Fin \<bar>x\<bar> | PInf \<Rightarrow> PInf | NInf \<Rightarrow> PInf | NaN \<Rightarrow> NaN)"

text \<open>The sign of a float that is not a NaN: \<open>-1\<close>, \<open>0\<close> or \<open>1\<close>.\<close>

definition fsign :: "pyfloat \<Rightarrow> int" where
  "fsign a = (case a of Fin x \<Rightarrow> (if x < 0 then - 1 else if x = 0 then 0 else 1)
              | PInf \<Rightarrow> 1 | NInf \<Rightarrow> - 1 | NaN \<Rightarrow> 0)"

definition signed_inf :: "int \<Rightarrow> pyfloat" where
  "signed_inf s = (if s = 0 then NaN else if 0 < s then PInf else NInf)"

definition fmul :: "pyfloat \<Rightarrow> pyfloat \<Rightarrow> pyfloat" where
  "fmul a b =
     (case (a, b) of
        (NaN, _) \<Rightarrow> NaN
      | (_, NaN) \<Rightarrow> NaN
      | (Fin x, Fin y) \<Rightarrow> fl (x * y)
      | _ \<Rightarrow> signed_inf (fsign a * fsign b))"

definition fadd :: "pyfloat \<Rightarrow> pyfloat \<Rightarrow> pyfloat" where
  "fadd a b =
     (case (a, b) of
        (NaN, _) \<Rightarrow> NaN
      | (_, NaN) \<Rightarrow> NaN
      | (Fin x, Fin y) \<Rightarrow> fl (x + y)
      | (PInf, NInf) \<Rightarrow> NaN
      | (NInf, PInf) \<Rightarrow> NaN
      | (Fin x, _) \<Rightarrow> b
      | _ \<Rightarrow> a)"

definition fsub :: "pyfloat \<Rightarrow> pyfloat \<Rightarrow> pyfloat" where
  "fsub a b = fadd a (fneg b)"

text \<open>Python's float division raises on a zero divisor before anything else.\<close>

definition fdiv :: "pyfloat \<Rightarrow> pyfloat \<Rightarrow> pyerror + pyfloat" where
  "fdiv a b =
     (if b = Fin 0 then Inl ZeroDivisionError
      else Inr (case (a, b) of
                  (NaN, _) \<Rightarrow> NaN
                | (_, NaN) \<Rightarrow> NaN
                | (Fin x, Fin y) \<Rightarrow> fl (x / y)
                | (Fin x, _) \<Rightarrow> Fin 0
                | (_, Fin y) \<Rightarrow> signed_inf (fsign a * fsign b)
                | _ \<Rightarrow> NaN))"

definition flt :: "pyfloat \<Rightarrow> pyfloat \<Rightarrow> bool" where
  "flt a b =
     (case (a, b) of
        (NaN, _) \<Rightarrow> False
      | (_, NaN) \<Rightarrow> False
      | (Fin x, Fin y) \<Rightarrow> x < y
      | (_, NInf) \<Rightarrow> False
      | (PInf, _) \<Rightarrow> False
      | _ \<Rightarrow> True)"

definition fle :: "pyfloat \<Rightarrow> pyfloat \<Rightarrow> bool" where
  "fle a b =
     (case (a, b) of
        (NaN, _) \<Rightarrow> False
      | (_, NaN) \<Rightarrow> False
      | (Fin x, Fin y) \<Rightarrow> x \<le> y
      | (NInf, _) \<Rightarrow> True
      | (_, PInf) \<Rightarrow> True
      | _ \<Rightarrow> False)"

text \<open>
  \<open>round(x)\<close> of a float, without \<open>ndigits\<close>: the nearest \<open>int\<close>, ties to the even one;
  it raises on the non-finite values.
\<close>

definition py_round :: "pyfloat \<Rightarrow> pyerror + int" where
  "py_round a =
     (case a of
        Fin x \<Rightarrow> Inr (round_half_even x)
      | NaN \<Rightarrow> Inl (ValueError ''cannot convert float NaN to integer'')
      | _ \<Rightarrow> Inl OverflowError)"

text \<open>An \<open>int\<close> operand of a float operation is converted first, correctly rounded.\<close>

definition int_to_float :: "int \<Rightarrow> pyerror + pyfloat" where
  "int_to_float n = (case fl (of_int n) of Fin y \<Rightarrow> Inr (Fin y) | _ \<Rightarrow> Inl OverflowError)"

text \<open>\<open>a / b\<close> on two \<open>int\<close>s is the correctly rounded quotient.\<close>

definition int_truediv :: "int \<Rightarrow> int \<Rightarrow> pyerror + pyfloat" where
  "int_truediv a b =
     (if b = 0 then Inl ZeroDivisionError
      else case fl (of_int a / of_int b) of Fin y \<Rightarrow> Inr (Fin y) | _ \<Rightarrow> Inl OverflowError)"

section \<open>The percentage table and its lookup (\<open>utils.py\<close>)\<close>

definition RPE_PERCENT_TABLE :: "(rat \<times> (int \<times> int) list) list" where
  "RPE_PERCENT_TABLE =
     [(10,     [(1, 100), (2, 95), (3, 92), (4, 89), (5, 86), (6, 84), (7, 81), (8, 79), (9, 76), (10, 74)]),
      (19 / 2, [(1, 98), (2, 94), (3, 91), (4, 88), (5, 85), (6, 82), (7, 80), (8, 77), (9, 75), (10, 72)]),
      (9,      [(1, 96), (2, 92), (3, 89), (4, 86), (5, 84), (6, 81), (7, 79), (8, 76), (9, 74), (10, 71)]),
      (17 / 2, [(1, 94), (2, 89), (3, 87), (4, 84), (5, 81), (6, 79), (7, 76), (8, 74), (9, 71), (10, 69)]),
      (8,      [(1, 92), (2, 87), (3, 84), (4, 81), (5, 79), (6, 76), (7, 74), (8, 71), (9, 69), (10, 66)]),
      (15 / 2, [(1, 89), (2, 84), (3, 81), (4, 79), (5, 76), (6, 74), (7, 71), (8, 69), (9, 66), (10, 64)])]"

text \<open>
  \<open>rpe in RPE_PERCENT_TABLE\<close> with a float key: a key is found when it is numerically
  equal (the \<open>int\<close> keys 10, 9 and 8 equal the floats 10.0, 9.0 and 8.0); no key is
  non-finite.
\<close>

definition table_row :: "pyfloat \<Rightarrow> (int \<times> int) list option" where
  "table_row k = (case k of Fin q \<Rightarrow> map_of RPE_PERCENT_TABLE q | _ \<Rightarrow> None)"

text \<open>
  \<open>_lookup_percent\<close>. The local \<open>pct\<close> is \<open>None\<close> until the table answers; the literal
  \<open>0.0333\<close> is the float nearest to it; the table entry, an \<open>int\<close> at most 100, converts
  exactly.
\<close>

definition lookup_percent :: "pyfloat \<Rightarrow> int \<Rightarrow> pyerror + pyfloat" where
  "lookup_percent rpe reps =
     pybind (py_round (fmul rpe (Fin 2))) (\<lambda>n.
     pybind (int_truediv n 2) (\<lambda>rpe'.
       case (case table_row rpe' of None \<Rightarrow> None | Some row \<Rightarrow> map_of row reps) of
         Some v \<Rightarrow> fdiv (Fin (of_int v)) (Fin 100)
       | None \<Rightarrow>
           pybind (int_to_float (reps - 1)) (\<lambda>k.
             fdiv (Fin 1) (fadd (Fin 1) (fmul (fl (333 / 10000)) k)))))"

section \<open>Warm-up sets (\<open>calculate_warmup_sets\<close>)\<close>

text \<open>
  One dictionary of the returned list. The fields stand for the keys \<open>"set_number"\<close>,
  \<open>"weight"\<close>, \<open>"reps"\<close> and \<open>"description"\<close>; the second and third carry the names of
  the locals the source stores there.
\<close>

record warmup_set =
  set_number :: int
  set_weight :: pyfloat
  warm_reps :: int
  description :: string

definition warmup_percentages :: "(pyfloat \<times> int \<times> string) list" where
  "warmup_percentages =
     [(fl (5 / 10), 5, ''50% of top set''),
      (fl (7 / 10), 3, ''70% of top set''),
      (fl (8 / 10), 2, ''80% of top set''),
      (fl (9 / 10), 1, ''90% of top set'')]"

fun warmup_loop ::
  "pyfloat \<Rightarrow> int \<Rightarrow> (pyfloat \<times> int \<times> string) list \<Rightarrow> warmup_set list \<Rightarrow> pyerror + warmup_set list"
where
  "warmup_loop weight idx [] warmup_sets = Inr warmup_sets"
| "warmup_loop weight idx ((pct, reps', descr) # rest) warmup_sets =
     pybind (fdiv (fmul weight pct) (Fin (5 / 2))) (\<lambda>q.
     pybind (py_round q) (\<lambda>n.
     pybind (int_to_float n) (\<lambda>nf.
       warmup_loop weight (idx + 1) rest
         (warmup_sets @
          [\<lparr>set_number = idx, set_weight = fmul nf (Fin (5 / 2)),
            warm_reps = reps', description = descr\<rparr>]))))"

text \<open>The messages are the source's, with its en dash written as a hyphen.\<close>

definition calculate_warmup_sets :: "pyfloat \<Rightarrow> pyfloat \<Rightarrow> int \<Rightarrow> pyerror + warmup_set list" where
  "calculate_warmup_sets rpe weight reps =
     (if \<not> (fle (Fin 5) rpe \<and> fle rpe (Fin 10)) then Inl (ValueError ''RPE must be 5.0-10.0'')
      else if fle weight (Fin 0) then Inl (ValueError ''Weight must be positive'')
      else if \<not> (1 \<le> reps \<and> reps \<le> 20) then Inl (ValueError ''Reps must be 1-20'')
      else warmup_loop weight 1 warmup_percentages [])"

section \<open>Maximum repetitions (\<open>predict_max_reps\<close>)\<close>

fun search_loop :: "pyfloat \<Rightarrow> pyfloat \<Rightarrow> int list \<Rightarrow> pyfloat \<Rightarrow> int \<Rightarrow> pyerror + int" where
  "search_loop weight rpe [] min_diff best_reps = Inr best_reps"
| "search_loop weight rpe (test_reps # rest) min_diff best_reps =
     pybind (lookup_percent rpe test_reps) (\<lambda>pct.
     pybind (if flt (Fin 0) pct then fdiv weight pct else Inr (Fin 0)) (\<lambda>est_1rm.
       let calc_weight = fmul est_1rm pct;
           diff = fabs (fsub calc_weight weight)
       in if flt diff min_diff then search_loop weight rpe rest diff test_reps
          else search_loop weight rpe rest min_diff best_reps))"

definition predict_max_reps :: "pyfloat \<Rightarrow> pyfloat \<Rightarrow> pyerror + int" where
  "predict_max_reps weight rpe =
     (if fle weight (Fin 0) then Inl (ValueError ''Weight must be positive'')
      else if \<not> (fle (Fin 5) rpe \<and> fle rpe (Fin 10)) then Inl (ValueError ''RPE must be 5.0-10.0'')
      else search_loop weight rpe [1..15] PInf 1)"

section \<open>Reference definitions, following the specification\<close>

text \<open>
  The specification's closed-form estimate \<open>1 / (1 + 0.0333 * (reps - 1))\<close>, evaluated in
  float arithmetic as written.
\<close>

definition epley_fallback :: "int \<Rightarrow> pyerror + pyfloat" where
  "epley_fallback reps =
     pybind (int_to_float (reps - 1)) (\<lambda>k.
       fdiv (Fin 1) (fadd (Fin 1) (fmul (fl (333 / 10000)) k)))"

text \<open>The specification's quantisation \<open>round(rpe * 2) / 2\<close>.\<close>

definition quantize :: "pyfloat \<Rightarrow> pyerror + pyfloat" where
  "quantize rpe = pybind (py_round (fmul rpe (Fin 2))) (\<lambda>n. int_truediv n 2)"

text \<open>
  The specification's lookup: the table answers exactly on the six quantised RPE values
  and the rep counts 1 to 10, with \<open>table[q][reps] / 100\<close>; everything else takes the
  closed-form estimate.
\<close>

definition table_keys :: "pyfloat list" where
  "table_keys = [Fin 10, Fin (19 / 2), Fin 9, Fin (17 / 2), Fin 8, Fin (15 / 2)]"

definition table_value :: "pyfloat \<Rightarrow> int \<Rightarrow> int" where
  "table_value q reps = the (map_of (the (table_row q)) reps)"

text \<open>A table entry \<open>v\<close> as a fraction: \<open>v / 100\<close>.\<close>

definition percent_of :: "int \<Rightarrow> pyerror + pyfloat" where
  "percent_of v = fdiv (Fin (of_int v)) (Fin 100)"

definition lookup_percent_spec :: "pyfloat \<Rightarrow> int \<Rightarrow> pyerror + pyfloat" where
  "lookup_percent_spec rpe reps =
     pybind (quantize rpe) (\<lambda>q.
       if q \<in> set table_keys \<and> 1 \<le> reps \<and> reps \<le> 10
       then percent_of (table_value q reps)
       else epley_fallback reps)"

text \<open>
  The specification's warm-up weight \<open>round(weight * pct / 2.5) * 2.5\<close>, evaluated in float
  arithmetic as written, and what it is to be a multiple of 2.5.
\<close>

definition round_to_plate :: "pyfloat \<Rightarrow> pyfloat \<Rightarrow> pyerror + pyfloat" where
  "round_to_plate weight pct =
     pybind (fdiv (fmul weight pct) (Fin (5 / 2))) (\<lambda>q.
     pybind (py_round q) (\<lambda>n.
     pybind (int_to_float n) (\<lambda>nf. Inr (fmul nf (Fin (5 / 2))))))"

text \<open>
  The integer \<open>round(weight * pct / 2.5)\<close> and the value of \<open>round_to_plate\<close> on finite
  arguments, where nothing overflows.
\<close>

definition plate_count :: "rat \<Rightarrow> rat \<Rightarrow> int" where
  "plate_count w p = round_half_even (rnd (rnd (w * p) / (5 / 2)))"

definition plate :: "rat \<Rightarrow> rat \<Rightarrow> rat" where
  "plate w p = rnd (rnd (of_int (plate_count w p)) * (5 / 2))"

definition multiple_of_plate :: "pyfloat \<Rightarrow> bool" where
  "multiple_of_plate a = (case a of Fin x \<Rightarrow> of_int \<lfloor>x / (5 / 2)\<rfloor> * (5 / 2) = x | _ \<Rightarrow> False)"

text \<open>
  The residual \<open>|calc_weight - weight|\<close> that one iteration of the search computes for the
  candidate \<open>test_reps\<close>, and its value (a NaN standing for a raised error).
\<close>

definition rep_diff :: "pyfloat \<Rightarrow> pyfloat \<Rightarrow> int \<Rightarrow> pyerror + pyfloat" where
  "rep_diff weight rpe test_reps =
     pybind (lookup_percent rpe test_reps) (\<lambda>pct.
     pybind (if flt (Fin 0) pct then fdiv weight pct else Inr (Fin 0)) (\<lambda>est_1rm.
       Inr (fabs (fsub (fmul est_1rm pct) weight))))"

definition residual :: "pyfloat \<Rightarrow> pyfloat \<Rightarrow> int \<Rightarrow> pyfloat" where
  "residual weight rpe test_reps =
     (case rep_diff weight rpe test_reps of Inr d \<Rightarrow> d | Inl e \<Rightarrow> NaN)"

text \<open>
  The two outcomes the specification speaks of: the error it calls \<open>InvalidInput\<close>, which
  the code raises as a \<open>ValueError\<close>, and a normal return.
\<close>

definition invalid_input :: "pyerror + 'a \<Rightarrow> bool" where
  "invalid_input res = (case res of Inl (ValueError msg) \<Rightarrow> True | _ \<Rightarrow> False)"

definition returns_normally :: "pyerror + 'a \<Rightarrow> bool" where
  "returns_normally res = (case res of Inr v \<Rightarrow> True | Inl e \<Rightarrow> False)"

section \<open>Evaluation on numerals\<close>

lemma bitlen_one: "bitlen 1 = 1"
  by (subst compute_bitlen) simp

lemma bitlen_Bit0: "bitlen (numeral (Num.Bit0 n)) = bitlen (numeral n) + 1"
  by (subst compute_bitlen) simp

lemma bitlen_Bit1: "bitlen (numeral (Num.Bit1 n)) = bitlen (numeral n) + 1"
  by (subst compute_bitlen) simp

lemma floor_rat_div: "\<lfloor>(numeral a / numeral b :: rat)\<rfloor> = numeral a div numeral b"
  using floor_divide_of_int_eq[of "numeral a" "numeral b", where ?'a = rat] by simp

lemma floor_rat_one_div: "\<lfloor>(1 / numeral b :: rat)\<rfloor> = 1 div numeral b"
  using floor_divide_of_int_eq[of 1 "numeral b", where ?'a = rat] by simp

lemma floor_rat_neg_div: "\<lfloor>(- (numeral a / numeral b) :: rat)\<rfloor> = - numeral a div numeral b"
  using floor_divide_of_int_eq[of "- numeral a" "numeral b", where ?'a = rat] by simp

lemma floor_rat_neg_one_div: "\<lfloor>(- (1 / numeral b) :: rat)\<rfloor> = - 1 div numeral b"
  using floor_divide_of_int_eq[of "- 1" "numeral b", where ?'a = rat] by simp

lemma pybind_Inl: "pybind (Inl e) f = Inl e"
  by (simp add: pybind_def)

lemma pybind_Inr: "pybind (Inr v) f = f v"
  by (simp add: pybind_def)

text \<open>The continuation of a \<open>pybind\<close> is looked at only once its first argument is a value.\<close>

lemma pybind_weak_cong: "r = r' \<Longrightarrow> pybind r f = pybind r' f"
  by simp

lemmas fl_eval =
  fl_def rnd_def quantum_def expo_def round_half_even_def too_large_def Let_def
  bitlen_one bitlen_Bit0 bitlen_Bit1
  floor_rat_div floor_rat_one_div floor_rat_neg_div floor_rat_neg_one_div ceiling_def
  fmul_def fdiv_def fadd_def fsub_def fneg_def fabs_def flt_def fle_def fsign_def signed_inf_def

lemmas prog_eval =
  fl_eval pybind_Inl pybind_Inr py_round_def int_truediv_def int_to_float_def table_row_def
  RPE_PERCENT_TABLE_def lookup_percent_def predict_max_reps_def calculate_warmup_sets_def
  warmup_percentages_def epley_fallback_def quantize_def percent_of_def round_to_plate_def
  multiple_of_plate_def rep_diff_def residual_def upto.simps

section \<open>Binary exponents\<close>

lemma two_powi_pos: "0 < (2::rat) powi k"
  by (simp add: power_int_def)

lemma two_powi_nat: "0 \<le> k \<Longrightarrow> (2::rat) powi k = 2 ^ nat k"
  by (simp add: power_int_def)

lemma two_powi_neg: "0 \<le> k \<Longrightarrow> (2::rat) powi (- k) = 1 / 2 ^ nat k"
  by (simp add: power_int_def field_simps)

lemma two_powi_less_iff: "(2::rat) powi a < 2 powi b \<longleftrightarrow> a < b"
  by (metis one_less_numeral_iff power_int_strict_increasing linorder_not_less
      power_int_increasing order_less_imp_le semiring_norm(76) leD less_le_not_le)

lemma two_powi_le_iff: "(2::rat) powi a \<le> 2 powi b \<longleftrightarrow> a \<le> b"
  using two_powi_less_iff [of b a] by (auto simp: not_less [symmetric])

lemma expo_bounds_ge1:
  assumes "1 \<le> \<bar>x::rat\<bar>"
  shows "2 powi expo x \<le> \<bar>x\<bar>" and "\<bar>x\<bar> < 2 powi (expo x + 1)"
proof -
  define n where "n = \<lfloor>\<bar>x\<bar>\<rfloor>"
  have n1: "1 \<le> n" using assms by (simp add: n_def le_floor_iff)
  then have n0: "0 < n" by simp
  have b1: "1 \<le> bitlen n" using n0 by (simp add: bitlen_alt_def)
  have e: "expo x = bitlen n - 1" using assms by (simp add: expo_def n_def)
  have lo: "2 ^ nat (bitlen n - 1) \<le> n" and hi: "n < 2 ^ nat (bitlen n)"
    using bitlen_bounds [OF n0] by auto
  have "(2::rat) powi (bitlen n - 1) = of_int (2 ^ nat (bitlen n - 1))"
    using b1 by (simp add: two_powi_nat)
  also have "\<dots> \<le> of_int n" using lo by (simp only: of_int_le_iff)
  also have "\<dots> \<le> \<bar>x\<bar>" by (simp add: n_def)
  finally show "2 powi expo x \<le> \<bar>x\<bar>" by (simp add: e)
  have "n + 1 \<le> 2 ^ nat (bitlen n)" using hi by simp
  then have "(of_int (n + 1) :: rat) \<le> of_int (2 ^ nat (bitlen n))" by (simp only: of_int_le_iff)
  moreover have "\<bar>x\<bar> < of_int (n + 1)" using floor_correct [of "\<bar>x\<bar>"] by (simp add: n_def)
  ultimately have "\<bar>x\<bar> < of_int (2 ^ nat (bitlen n))" by simp
  also have "\<dots> = (2::rat) powi (bitlen n)" using b1 by (simp add: two_powi_nat)
  finally show "\<bar>x\<bar> < 2 powi (expo x + 1)" by (simp add: e)
qed

lemma expo_bounds_lt1:
  assumes "x \<noteq> 0" and "\<bar>x::rat\<bar> < 1"
  shows "2 powi expo x \<le> \<bar>x\<bar>" and "\<bar>x\<bar> < 2 powi (expo x + 1)"
proof -
  define y where "y = 1 / \<bar>x\<bar>"
  define m where "m = \<lceil>y\<rceil> - 1"
  have xpos: "0 < \<bar>x\<bar>" using assms by simp
  have y1: "1 < y" using assms xpos by (simp add: y_def)
  have m1: "1 \<le> m" using y1 by (simp add: m_def less_ceiling_iff)
  then have m0: "0 < m" by simp
  have b1: "1 \<le> bitlen m" using m0 by (simp add: bitlen_alt_def)
  have e: "expo x = - bitlen m" using assms by (simp add: expo_def m_def y_def)
  have lo: "2 ^ nat (bitlen m - 1) \<le> m" and hi: "m < 2 ^ nat (bitlen m)"
    using bitlen_bounds [OF m0] by auto
  have my: "of_int m < y" by (simp add: m_def) (metis ceiling_less_iff less_ceiling_iff linorder_not_less order_refl diff_less_eq less_add_one of_int_1 of_int_diff ceiling_correct)
  have ym: "y \<le> of_int (m + 1)" by (simp add: m_def)
  have "m + 1 \<le> 2 ^ nat (bitlen m)" using hi by simp
  then have "(of_int (m + 1) :: rat) \<le> of_int (2 ^ nat (bitlen m))" by (simp only: of_int_le_iff)
  with ym have "y \<le> 2 ^ nat (bitlen m)" by simp
  then have "1 / 2 ^ nat (bitlen m) \<le> \<bar>x\<bar>"
    using xpos by (simp add: y_def field_simps)
  then show "2 powi expo x \<le> \<bar>x\<bar>"
    using b1 by (simp add: e two_powi_neg)
  have "(of_int (2 ^ nat (bitlen m - 1)) :: rat) \<le> of_int m" using lo by (simp only: of_int_le_iff)
  then have "(2::rat) ^ nat (bitlen m - 1) \<le> of_int m" by simp
  with my have "2 ^ nat (bitlen m - 1) < y" by linarith
  then have "\<bar>x\<bar> < 1 / 2 ^ nat (bitlen m - 1)"
    using xpos by (simp add: y_def field_simps)
  moreover have "(2::rat) powi (- bitlen m + 1) = 1 / 2 ^ nat (bitlen m - 1)"
    using b1 two_powi_neg [of "bitlen m - 1"] by simp
  ultimately show "\<bar>x\<bar> < 2 powi (expo x + 1)" by (simp add: e)
qed

lemma expo_lower: "x \<noteq> 0 \<Longrightarrow> 2 powi expo x \<le> \<bar>x\<bar>"
  using expo_bounds_ge1(1) expo_bounds_lt1(1) by (cases "1 \<le> \<bar>x\<bar>") auto

lemma expo_upper: "x \<noteq> 0 \<Longrightarrow> \<bar>x\<bar> < 2 powi (expo x + 1)"
  using expo_bounds_ge1(2) expo_bounds_lt1(2) by (cases "1 \<le> \<bar>x\<bar>") auto

lemma expo_unique:
  assumes "2 powi e \<le> \<bar>x\<bar>" and "\<bar>x\<bar> < 2 powi (e + 1)"
  shows "expo x = e"
proof -
  have x0: "x \<noteq> 0"
  proof
    assume "x = 0"
    with assms(1) have "(2::rat) powi e \<le> 0" by simp
    with two_powi_pos [of e] show False by linarith
  qed
  have "2 powi e < (2::rat) powi (expo x + 1)"
    using assms(1) expo_upper [OF x0] by simp
  then have a: "e < expo x + 1" by (simp only: two_powi_less_iff)
  have "2 powi expo x < (2::rat) powi (e + 1)"
    using assms(2) expo_lower [OF x0] by simp
  then have b: "expo x < e + 1" by (simp only: two_powi_less_iff)
  from a b show ?thesis by simp
qed

lemma expo_mono:
  assumes "x \<noteq> 0" and "\<bar>x\<bar> \<le> \<bar>y\<bar>"
  shows "expo x \<le> expo y"
proof -
  have y0: "y \<noteq> 0" using assms by auto
  have "2 powi expo x \<le> \<bar>x\<bar>" by (rule expo_lower [OF assms(1)])
  also have "\<dots> \<le> \<bar>y\<bar>" by fact
  also have "\<dots> < 2 powi (expo y + 1)" by (rule expo_upper [OF y0])
  finally have "expo x < expo y + 1" by (simp only: two_powi_less_iff)
  then show ?thesis by simp
qed

lemma expo_minus: "expo (- x) = expo x"
  by (simp add: expo_def)

section \<open>Rounding to the nearest integer, ties to even\<close>

lemma rhe_of_int: "round_half_even (of_int n) = n"
  by (simp add: round_half_even_def)

lemma rhe_range: "\<lfloor>x\<rfloor> \<le> round_half_even x \<and> round_half_even x \<le> \<lfloor>x\<rfloor> + 1"
  by (simp add: round_half_even_def Let_def)

lemma rhe_floor_eq:
  assumes "\<lfloor>x\<rfloor> = \<lfloor>y\<rfloor>" and "x \<le> y"
  shows "round_half_even x \<le> round_half_even y"
  using assms by (auto simp: round_half_even_def Let_def)

lemma rhe_mono:
  assumes "x \<le> y"
  shows "round_half_even x \<le> round_half_even y"
proof (cases "\<lfloor>x\<rfloor> = \<lfloor>y\<rfloor>")
  case True
  then show ?thesis using assms by (rule rhe_floor_eq)
next
  case False
  with assms have "\<lfloor>x\<rfloor> + 1 \<le> \<lfloor>y\<rfloor>" using floor_mono [OF assms] by simp
  with rhe_range [of x] rhe_range [of y] show ?thesis by linarith
qed

lemma rhe_unfold:
  "round_half_even x =
     (if x - of_int \<lfloor>x\<rfloor> < 1 / 2 then \<lfloor>x\<rfloor>
      else if 1 / 2 < x - of_int \<lfloor>x\<rfloor> then \<lfloor>x\<rfloor> + 1
      else if even \<lfloor>x\<rfloor> then \<lfloor>x\<rfloor> else \<lfloor>x\<rfloor> + 1)"
  by (simp add: round_half_even_def Let_def)

lemma rhe_minus: "round_half_even (- x) = - round_half_even x"
proof (cases "x = of_int \<lfloor>x\<rfloor>")
  case True
  then obtain n where "x = of_int n" ..
  then show ?thesis by (simp add: rhe_of_int flip: of_int_minus)
next
  case False
  define f where "f = \<lfloor>x\<rfloor>"
  have c: "\<lceil>x\<rceil> = f + 1"
    using False unfolding f_def by (metis ceiling_altdef)
  have g: "\<lfloor>- x\<rfloor> = - f - 1"
    using c by (simp add: ceiling_def)
  have lt: "of_int f < x"
    unfolding f_def by (rule order.not_eq_order_implies_strict [OF not_sym [OF False] of_int_floor_le])
  have r1: "round_half_even x =
     (if x - of_int f < 1 / 2 then f else if 1 / 2 < x - of_int f then f + 1
      else if even f then f else f + 1)"
    unfolding f_def by (rule rhe_unfold)
  have r2: "round_half_even (- x) =
     (if - x - of_int (- f - 1) < 1 / 2 then - f - 1 else if 1 / 2 < - x - of_int (- f - 1) then - f - 1 + 1
      else if even (- f - 1) then - f - 1 else - f - 1 + 1)"
    unfolding g [symmetric] by (rule rhe_unfold)
  show ?thesis
    unfolding r1 r2 using lt by (auto simp: field_simps)
qed

lemma rhe_near: "\<bar>x - of_int (round_half_even x)\<bar> \<le> 1 / 2"
proof -
  define f where "f = \<lfloor>x\<rfloor>"
  have a: "of_int f \<le> x" and b: "x < of_int f + 1"
    using floor_correct [of x] by (simp_all add: f_def)
  have r1: "round_half_even x =
     (if x - of_int f < 1 / 2 then f else if 1 / 2 < x - of_int f then f + 1
      else if even f then f else f + 1)"
    unfolding f_def by (rule rhe_unfold)
  show ?thesis
    unfolding r1 using a b by (auto simp: abs_if)
qed

section \<open>Rounding to binary64\<close>

lemma quantum_pos: "0 < quantum x"
  by (simp add: quantum_def two_powi_pos)

lemma quantum_minus: "quantum (- x) = quantum x"
  by (simp add: quantum_def expo_minus)

lemma rnd_minus: "rnd (- x) = - rnd x"
  by (simp add: rnd_def quantum_minus rhe_minus)

lemma rnd_nonneg:
  assumes "0 \<le> x"
  shows "0 \<le> rnd x"
proof (cases "x = 0")
  case True
  then show ?thesis by (simp add: rnd_def)
next
  case False
  have "0 \<le> x / quantum x" using assms quantum_pos [of x] by simp
  from rhe_mono [OF this] have "0 \<le> round_half_even (x / quantum x)"
    using rhe_of_int [of 0] by simp
  then show ?thesis using False quantum_pos [of x] by (simp add: rnd_def)
qed

lemma rnd_same_quantum:
  assumes "quantum x = quantum y" and "x \<le> y" and "x \<noteq> 0" and "y \<noteq> 0"
  shows "rnd x \<le> rnd y"
proof -
  have "x / quantum y \<le> y / quantum y"
    using assms(2) quantum_pos [of y] by (simp add: divide_right_mono)
  from rhe_mono [OF this]
  have "(of_int (round_half_even (x / quantum y)) :: rat) \<le> of_int (round_half_even (y / quantum y))"
    by (simp only: of_int_le_iff)
  then show ?thesis
    using assms quantum_pos [of y] by (simp add: rnd_def mult_right_mono)
qed

lemma two_powi_diff: "(2::rat) powi a / 2 powi b = 2 powi (a - b)"
  by (simp add: power_int_diff)

lemma two_powi_add: "(2::rat) powi a * 2 powi b = 2 powi (a + b)"
  by (simp add: power_int_add)

lemma rnd_upper:
  assumes "0 < x"
  shows "rnd x \<le> 2 powi (max (expo x) (- 1022) + 1)"
proof -
  define E where "E = max (expo x) (- 1022)"
  have q: "quantum x = 2 powi (E - 52)" by (simp add: quantum_def E_def)
  have x0: "x \<noteq> 0" using assms by simp
  have "x < 2 powi (expo x + 1)" using expo_upper [OF x0] assms by simp
  also have "\<dots> \<le> 2 powi (E + 1)" by (simp only: two_powi_le_iff) (simp add: E_def)
  finally have "x / quantum x \<le> 2 powi (E + 1) / 2 powi (E - 52)"
    using two_powi_pos [of "E - 52"] by (simp add: q divide_right_mono)
  also have "\<dots> = 2 powi 53" by (simp only: two_powi_diff) simp
  also have "\<dots> = of_int (2 ^ 53)" by simp
  finally have "round_half_even (x / quantum x) \<le> 2 ^ 53"
    using rhe_mono [of "x / quantum x" "of_int (2 ^ 53)"] by (simp only: rhe_of_int)
  then have "(of_int (round_half_even (x / quantum x)) :: rat) \<le> of_int (2 ^ 53)"
    by (simp only: of_int_le_iff)
  then have "rnd x \<le> of_int (2 ^ 53) * 2 powi (E - 52)"
    using x0 two_powi_pos [of "E - 52"] by (simp add: rnd_def q mult_right_mono)
  also have "of_int (2 ^ 53) * 2 powi (E - 52) = (2::rat) powi 53 * 2 powi (E - 52)" by simp
  also have "\<dots> = 2 powi (E + 1)" by (simp only: two_powi_add) (simp add: add.commute)
  finally show ?thesis by (simp add: E_def)
qed

lemma rnd_lower:
  assumes "0 < x" and "- 1022 \<le> expo x"
  shows "2 powi expo x \<le> rnd x"
proof -
  define E where "E = expo x"
  have q: "quantum x = 2 powi (E - 52)" using assms(2) by (simp add: quantum_def E_def max_def)
  have x0: "x \<noteq> 0" using assms by simp
  have "2 powi E \<le> x" using expo_lower [OF x0] assms by (simp add: E_def)
  then have "2 powi E / 2 powi (E - 52) \<le> x / quantum x"
    using two_powi_pos [of "E - 52"] by (simp add: q divide_right_mono)
  moreover have "(2::rat) powi E / 2 powi (E - 52) = 2 powi 52" by (simp only: two_powi_diff) simp
  moreover have "(2::rat) powi 52 = of_int (2 ^ 52)" by simp
  ultimately have "of_int (2 ^ 52) \<le> x / quantum x" by simp
  then have "2 ^ 52 \<le> round_half_even (x / quantum x)"
    using rhe_mono [of "of_int (2 ^ 52)" "x / quantum x"] by (simp only: rhe_of_int)
  then have "(of_int (2 ^ 52) :: rat) \<le> of_int (round_half_even (x / quantum x))"
    by (simp only: of_int_le_iff)
  then have "of_int (2 ^ 52) * 2 powi (E - 52) \<le> rnd x"
    using x0 two_powi_pos [of "E - 52"] by (simp add: rnd_def q mult_right_mono)
  moreover have "of_int (2 ^ 52) * 2 powi (E - 52) = (2::rat) powi 52 * 2 powi (E - 52)" by simp
  moreover have "(2::rat) powi 52 * 2 powi (E - 52) = 2 powi E" by (simp only: two_powi_add) simp
  ultimately show ?thesis by (simp add: E_def)
qed

lemma rnd_mono_pos:
  assumes "0 < x" and "x \<le> y"
  shows "rnd x \<le> rnd y"
proof -
  have x0: "x \<noteq> 0" and y0: "y \<noteq> 0" and ypos: "0 < y" using assms by auto
  have e: "expo x \<le> expo y" using expo_mono [OF x0, of y] assms by simp
  show ?thesis
  proof (cases "max (expo x) (- 1022) = max (expo y) (- 1022)")
    case True
    then have "quantum x = quantum y" by (simp add: quantum_def)
    then show ?thesis using assms(2) x0 y0 by (rule rnd_same_quantum)
  next
    case False
    with e have lt: "max (expo x) (- 1022) + 1 \<le> expo y" and n: "- 1022 \<le> expo y" by auto
    have "rnd x \<le> 2 powi (max (expo x) (- 1022) + 1)" by (rule rnd_upper [OF assms(1)])
    also have "\<dots> \<le> 2 powi expo y" using lt by (simp only: two_powi_le_iff)
    also have "\<dots> \<le> rnd y" by (rule rnd_lower [OF ypos n])
    finally show ?thesis .
  qed
qed

lemma rnd_zero: "rnd 0 = 0"
  by (simp add: rnd_def)

lemma rnd_mono:
  assumes "x \<le> y"
  shows "rnd x \<le> rnd y"
proof -
  consider "0 < x" | "x \<le> 0" "0 \<le> y" | "y < 0" by linarith
  then show ?thesis
  proof cases
    case 1
    then show ?thesis using assms by (rule rnd_mono_pos)
  next
    case 2
    have "rnd x \<le> 0" using rnd_nonneg [of "- x"] 2(1) by (simp add: rnd_minus)
    also have "0 \<le> rnd y" using 2(2) by (rule rnd_nonneg)
    finally show ?thesis .
  next
    case 3
    have "rnd (- y) \<le> rnd (- x)" using 3 assms by (intro rnd_mono_pos) auto
    then show ?thesis by (simp add: rnd_minus)
  qed
qed

lemma too_large_iff: "too_large y \<longleftrightarrow> 2 ^ 1024 \<le> \<bar>y\<bar>"
proof
  assume "too_large y"
  then have y0: "y \<noteq> 0" and e: "1024 \<le> expo y" by (simp_all add: too_large_def)
  have "(2::rat) powi 1024 \<le> 2 powi expo y" using e by (simp only: two_powi_le_iff)
  also have "\<dots> \<le> \<bar>y\<bar>" by (rule expo_lower [OF y0])
  finally show "2 ^ 1024 \<le> \<bar>y\<bar>" by simp
next
  assume a: "2 ^ 1024 \<le> \<bar>y\<bar>"
  then have y0: "y \<noteq> 0" by auto
  have "(2::rat) powi 1024 \<le> \<bar>y\<bar>" using a by simp
  also have "\<dots> < 2 powi (expo y + 1)" by (rule expo_upper [OF y0])
  finally have "1024 < expo y + 1" by (simp only: two_powi_less_iff)
  then show "too_large y" using y0 by (simp add: too_large_def)
qed

lemma fl_Fin: "\<bar>rnd x\<bar> < 2 ^ 1024 \<Longrightarrow> fl x = Fin (rnd x)"
  by (simp add: fl_def Let_def too_large_iff)

lemma is_double_iff: "is_double x \<longleftrightarrow> rnd x = x \<and> \<bar>x\<bar> < 2 ^ 1024"
  by (auto simp: is_double_def too_large_iff)

lemma fl_between:
  assumes "a \<le> x" and "x \<le> b" and "is_double a" and "is_double b"
  shows "fl x = Fin (rnd x)" and "a \<le> rnd x" and "rnd x \<le> b"
proof -
  show lo: "a \<le> rnd x" using rnd_mono [OF assms(1)] assms(3) by (simp add: is_double_iff)
  show hi: "rnd x \<le> b" using rnd_mono [OF assms(2)] assms(4) by (simp add: is_double_iff)
  have "\<bar>rnd x\<bar> < 2 ^ 1024" using lo hi assms(3,4) by (simp add: is_double_iff abs_if split: if_splits)
  then show "fl x = Fin (rnd x)" by (rule fl_Fin)
qed


lemma is_double_minus: "is_double (- x) = is_double x"
  by (auto simp: is_double_iff rnd_minus)

lemma is_double_zero: "is_double 0"
  by (simp add: is_double_iff rnd_zero)

lemma expo_less:
  assumes "x \<noteq> 0" and "\<bar>x\<bar> < 2 powi k"
  shows "expo x < k"
proof -
  have "2 powi expo x \<le> \<bar>x\<bar>" by (rule expo_lower [OF assms(1)])
  also have "\<dots> < 2 powi k" by fact
  finally show ?thesis by (simp only: two_powi_less_iff)
qed

text \<open>Every integer of at most 53 bits, scaled by a power of two in range, is a binary64 number.\<close>

lemma is_double_scaled:
  assumes m: "\<bar>m\<bar> < 2 ^ 53" and k: "- 1074 \<le> k" "k \<le> 971"
  shows "is_double (of_int m * 2 powi k)"
proof (cases "m = 0")
  case True
  then show ?thesis by (simp add: is_double_zero)
next
  case False
  define x :: rat where "x = of_int m * 2 powi k"
  have x0: "x \<noteq> 0" using False by (simp add: x_def)
  have ax: "\<bar>x\<bar> = of_int \<bar>m\<bar> * 2 powi k"
    using two_powi_pos [of k] by (simp add: x_def abs_mult)
  have "(of_int \<bar>m\<bar> :: rat) < of_int (2 ^ 53)" using m by (simp only: of_int_less_iff)
  then have "\<bar>x\<bar> < of_int (2 ^ 53) * 2 powi k"
    using two_powi_pos [of k] by (simp add: ax)
  also have "of_int (2 ^ 53) * 2 powi k = (2::rat) powi 53 * 2 powi k" by simp
  also have "\<dots> = 2 powi (53 + k)" by (simp only: two_powi_add)
  finally have xlt: "\<bar>x\<bar> < 2 powi (53 + k)" .
  then have e: "expo x < 53 + k" by (rule expo_less [OF x0])
  define j where "j = k - (max (expo x) (- 1022) - 52)"
  have j0: "0 \<le> j" using e k by (simp add: j_def)
  have q: "quantum x = 2 powi (k - j)" by (simp add: quantum_def j_def)
  have "x / quantum x = x / 2 powi (k - j)" by (simp only: q)
  also have "\<dots> = of_int m * (2 powi k / 2 powi (k - j))" by (simp add: x_def)
  also have "2 powi k / 2 powi (k - j) = (2::rat) powi j" by (simp only: two_powi_diff) simp
  also have "(2::rat) powi j = of_int (2 ^ nat j)" using j0 by (simp add: two_powi_nat)
  finally have "x / quantum x = of_int (m * 2 ^ nat j)" by simp
  then have "round_half_even (x / quantum x) = m * 2 ^ nat j" by (simp only: rhe_of_int)
  then have "rnd x = of_int (m * 2 ^ nat j) * 2 powi (k - j)" using x0 by (simp add: rnd_def q)
  also have "\<dots> = of_int m * (2 powi j * 2 powi (k - j))" using j0 by (simp add: two_powi_nat)
  also have "2 powi j * 2 powi (k - j) = (2::rat) powi k" by (simp add: two_powi_add)
  finally have r: "rnd x = x" by (simp add: x_def)
  have "(2::rat) powi (53 + k) \<le> 2 powi 1024" using k by (simp only: two_powi_le_iff)
  with xlt have "\<bar>x\<bar> < 2 ^ 1024" by simp
  with r show ?thesis by (simp add: is_double_iff x_def)
qed

lemma is_double_of_int: "\<bar>m\<bar> < 2 ^ 53 \<Longrightarrow> is_double (of_int m)"
  using is_double_scaled [of m 0] by simp

lemma is_double_two_powi: "- 1074 \<le> k \<Longrightarrow> k \<le> 1023 \<Longrightarrow> is_double (2 powi k)"
proof -
  assume k: "- 1074 \<le> k" "k \<le> 1023"
  show ?thesis
  proof (cases "k \<le> 971")
    case True
    then show ?thesis using is_double_scaled [of 1 k] k by simp
  next
    case False
    have "is_double (of_int (2 ^ 52) * 2 powi (k - 52))"
      using False k by (intro is_double_scaled) simp_all
    moreover have "of_int (2 ^ 52) * 2 powi (k - 52) = (2::rat) powi 52 * 2 powi (k - 52)" by simp
    moreover have "(2::rat) powi 52 * 2 powi (k - 52) = 2 powi k" by (simp only: two_powi_add) simp
    ultimately show ?thesis by simp
  qed
qed

lemma is_double_examples:
  "is_double 1" "is_double (1 / 2)" "is_double (2 ^ 1023)" "is_double (2 ^ 1022)"
  "is_double (1 / 2 ^ 1023)" "is_double (15 * 2 ^ 1020)" "is_double (6 * 2 ^ 1020)"
  "is_double (2 ^ 50)" "is_double (2 ^ 49)"
  using is_double_two_powi [of 0] is_double_two_powi [of "- 1"] is_double_two_powi [of 1023]
    is_double_two_powi [of 1022] is_double_two_powi [of "- 1023"]
    is_double_scaled [of "15 * 2 ^ 49" 971] is_double_scaled [of "6 * 2 ^ 49" 971]
    is_double_two_powi [of 50] is_double_two_powi [of 49]
  by (simp_all add: power_int_minus field_simps)

section \<open>The lookup returns a fraction\<close>

lemma fl_333: "fl (333 / 10000) = Fin (4799035762926001 / 144115188075855872)"
  by (simp add: fl_eval)

lemma table_entry_range:
  assumes "table_row q = Some row" and "map_of row reps = Some v"
  shows "64 \<le> v \<and> v \<le> 100"
proof -
  from assms(1) have q: "q = Fin 10 \<or> q = Fin (19 / 2) \<or> q = Fin 9 \<or> q = Fin (17 / 2) \<or> q = Fin 8 \<or> q = Fin (15 / 2)"
    by (cases q) (auto simp: table_row_def RPE_PERCENT_TABLE_def split: if_splits)
  from q assms show ?thesis
    by (elim disjE) (auto simp: table_row_def RPE_PERCENT_TABLE_def split: if_splits)
qed

lemma percent_of_range:
  assumes "64 \<le> v" and "v \<le> 100"
  shows "\<exists>p. percent_of v = Inr (Fin p) \<and> 1 / 2 \<le> p \<and> p \<le> 1"
proof -
  have a: "1 / 2 \<le> (of_int v :: rat) / 100" and b: "(of_int v :: rat) / 100 \<le> 1"
    using assms by simp_all
  note r = fl_between [OF a b is_double_examples(2) is_double_examples(1)]
  show ?thesis using r by (simp add: percent_of_def fdiv_def)
qed

lemma int_to_float_range:
  assumes "a \<le> of_int n" and "of_int n \<le> b" and "is_double a" and "is_double b"
  shows "\<exists>y. int_to_float n = Inr (Fin y) \<and> a \<le> y \<and> y \<le> b"
  using fl_between [OF assms] by (simp add: int_to_float_def)

lemma epley_fallback_range:
  assumes "1 \<le> reps" and "reps \<le> 2 ^ 1023"
  shows "\<exists>p. epley_fallback reps = Inr (Fin p) \<and> 0 < p \<and> p \<le> 1"
proof -
  have a: "(0::rat) \<le> of_int (reps - 1)" using assms by simp
  have "reps - 1 \<le> 2 ^ 1023" using assms by simp
  then have "(of_int (reps - 1) :: rat) \<le> of_int (2 ^ 1023)" by (simp only: of_int_le_iff)
  then have b: "(of_int (reps - 1) :: rat) \<le> 2 ^ 1023" by simp
  from int_to_float_range [OF a b is_double_zero is_double_examples(3)]
  obtain k where k: "int_to_float (reps - 1) = Inr (Fin k)" "0 \<le> k" "k \<le> 2 ^ 1023" by blast
  define c :: rat where "c = 4799035762926001 / 144115188075855872"
  have c: "0 \<le> c" "c \<le> 1 / 2" by (simp_all add: c_def)
  have t0: "0 \<le> c * k" using c k by simp
  have "c * k \<le> (1 / 2) * 2 ^ 1023" using c k by (intro mult_mono) simp_all
  then have t1: "c * k \<le> 2 ^ 1022" by simp
  note t = fl_between [OF t0 t1 is_double_zero is_double_examples(4)]
  define t' where "t' = rnd (c * k)"
  have u0: "1 \<le> 1 + t'" using t(2) by (simp add: t'_def)
  have u1: "1 + t' \<le> 2 ^ 1023" using t(3) by (simp add: t'_def)
  note u = fl_between [OF u0 u1 is_double_examples(1) is_double_examples(3)]
  define u' where "u' = rnd (1 + t')"
  have upos: "0 < u'" using u(2) by (simp add: u'_def)
  have p0: "1 / 2 ^ 1023 \<le> 1 / u'" using u(3) upos by (simp add: u'_def field_simps)
  have p1: "1 / u' \<le> 1" using u(2) upos by (simp add: u'_def)
  note p = fl_between [OF p0 p1 is_double_examples(5) is_double_examples(1)]
  have "epley_fallback reps = Inr (Fin (rnd (1 / u')))"
    using k(1) t(1) u(1) p(1) upos
    by (simp add: epley_fallback_def pybind_Inr fl_333 fmul_def fadd_def fdiv_def c_def t'_def u'_def)
  moreover have "0 < rnd (1 / u')" using p(2) by (simp add: less_le_trans [of 0 "1 / 2 ^ 1023"])
  ultimately show ?thesis using p(3) by blast
qed

lemma epley_fallback_one: "epley_fallback 1 = Inr (Fin 1)"
  by (simp add: prog_eval cong: pybind_weak_cong)

lemma quantize_ok:
  assumes "\<bar>r\<bar> \<le> 2 ^ 1022"
  shows "\<exists>q. quantize (Fin r) = Inr q"
proof -
  have d: "is_double (- (2 ^ 1023))" "is_double (- (2 ^ 1022))"
    using is_double_examples(3,4) by (simp_all only: is_double_minus)
  have a: "- (2 ^ 1023) \<le> r * 2" and b: "r * 2 \<le> 2 ^ 1023" using assms by (simp_all add: abs_le_iff)
  note y = fl_between [OF a b d(1) is_double_examples(3)]
  define y' where "y' = rnd (r * 2)"
  define n where "n = round_half_even y'"
  have "round_half_even (of_int (- (2 ^ 1023))) \<le> n"
    unfolding n_def using y(2) by (intro rhe_mono) (simp add: y'_def)
  then have n0: "- (2 ^ 1023) \<le> n" by (simp only: rhe_of_int)
  have "n \<le> round_half_even (of_int (2 ^ 1023))"
    unfolding n_def using y(3) by (intro rhe_mono) (simp add: y'_def)
  then have n1: "n \<le> 2 ^ 1023" by (simp only: rhe_of_int)
  have "(of_int (- (2 ^ 1023)) :: rat) \<le> of_int n" using n0 by (simp only: of_int_le_iff)
  then have h0: "- (2 ^ 1022) \<le> (of_int n :: rat) / of_int 2" by simp
  have "(of_int n :: rat) \<le> of_int (2 ^ 1023)" using n1 by (simp only: of_int_le_iff)
  then have h1: "(of_int n :: rat) / of_int 2 \<le> 2 ^ 1022" by simp
  note h = fl_between [OF h0 h1 d(2) is_double_examples(4)]
  have "quantize (Fin r) = Inr (Fin (rnd (of_int n / of_int 2)))"
    using y(1) h(1)
    by (simp add: quantize_def fmul_def py_round_def pybind_Inr int_truediv_def n_def y'_def)
  then show ?thesis by blast
qed

lemma lookup_percent_unfold:
  "lookup_percent rpe reps =
     pybind (quantize rpe) (\<lambda>q.
       case (case table_row q of None \<Rightarrow> None | Some row \<Rightarrow> map_of row reps) of
         Some v \<Rightarrow> percent_of v
       | None \<Rightarrow> epley_fallback reps)"
  by (cases "py_round (fmul rpe (Fin 2))")
     (simp_all add: lookup_percent_def quantize_def pybind_def percent_of_def epley_fallback_def
        split: sum.splits option.splits)

lemma lookup_percent_range:
  assumes "\<bar>r\<bar> \<le> 2 ^ 1022" and "1 \<le> reps" and "reps \<le> 2 ^ 1023"
  shows "\<exists>p. lookup_percent (Fin r) reps = Inr (Fin p) \<and> 0 < p \<and> p \<le> 1"
proof -
  from quantize_ok [OF assms(1)] obtain q where q: "quantize (Fin r) = Inr q" ..
  show ?thesis
  proof (cases "case table_row q of None \<Rightarrow> None | Some row \<Rightarrow> map_of row reps")
    case None
    with q have "lookup_percent (Fin r) reps = epley_fallback reps"
      by (simp add: lookup_percent_unfold pybind_Inr)
    with epley_fallback_range [OF assms(2,3)] show ?thesis by simp
  next
    case (Some v)
    then obtain row where "table_row q = Some row" "map_of row reps = Some v"
      by (auto split: option.splits)
    then have "64 \<le> v \<and> v \<le> 100" by (rule table_entry_range)
    then obtain p where "percent_of v = Inr (Fin p)" "1 / 2 \<le> p" "p \<le> 1"
      using percent_of_range by blast
    moreover from q Some have "lookup_percent (Fin r) reps = percent_of v"
      by (simp add: lookup_percent_unfold pybind_Inr)
    ultimately show ?thesis by (intro exI [of _ p]) simp
  qed
qed

lemma valid_rpe_Fin:
  assumes "fle (Fin 5) rpe" and "fle rpe (Fin 10)"
  obtains r where "rpe = Fin r" and "5 \<le> r" and "r \<le> 10"
  using assms by (cases rpe) (simp_all add: fle_def)

lemma lookup_percent_valid:
  assumes "fle (Fin 5) rpe" and "fle rpe (Fin 10)" and "1 \<le> reps" and "reps \<le> 2 ^ 1023"
  shows "\<exists>p. lookup_percent rpe reps = Inr (Fin p) \<and> 0 < p \<and> p \<le> 1"
proof -
  from assms(1,2) obtain r where r: "rpe = Fin r" "5 \<le> r" "r \<le> 10" by (rule valid_rpe_Fin)
  have "\<bar>r\<bar> \<le> 2 ^ 1022" using r by simp
  from lookup_percent_range [OF this assms(3,4)] show ?thesis by (simp add: r)
qed

section \<open>The search for the closest candidate\<close>









lemma rep_diff_valid:
  assumes "fle (Fin 5) rpe" and "fle rpe (Fin 10)" and "1 \<le> t" and "t \<le> 2 ^ 1023"
  shows "\<exists>p a. 0 < p \<and> lookup_percent rpe t = Inr (Fin p) \<and> fdiv weight (Fin p) = Inr a
           \<and> rep_diff weight rpe t = Inr (fabs (fsub (fmul a (Fin p)) weight))"
proof -
  from lookup_percent_valid [OF assms] obtain p
    where p: "lookup_percent rpe t = Inr (Fin p)" "0 < p" by blast
  obtain a where a: "fdiv weight (Fin p) = Inr a" using p(2) by (simp add: fdiv_def)
  have "rep_diff weight rpe t = Inr (fabs (fsub (fmul a (Fin p)) weight))"
    using p a by (simp add: rep_diff_def pybind_Inr flt_def)
  with p a show ?thesis by blast
qed



lemma search_loop_step:
  "search_loop weight rpe (t # rest) m b =
     pybind (rep_diff weight rpe t) (\<lambda>d.
       if flt d m then search_loop weight rpe rest d t else search_loop weight rpe rest m b)"
  by (simp add: rep_diff_def pybind_def Let_def split: sum.splits)

lemma search_loop_total:
  assumes "\<forall>t\<in>set ts. \<exists>d. rep_diff weight rpe t = Inr d"
  shows "\<exists>r. search_loop weight rpe ts m b = Inr r \<and> (r = b \<or> r \<in> set ts)"
  using assms
proof (induction ts arbitrary: m b)
  case Nil
  then show ?case by simp
next
  case (Cons t rest)
  then obtain d where d: "rep_diff weight rpe t = Inr d" by auto
  have rest: "\<forall>t\<in>set rest. \<exists>d. rep_diff weight rpe t = Inr d" using Cons.prems by simp
  show ?case
  proof (cases "flt d m")
    case True
    from Cons.IH [OF rest, of d t] True d show ?thesis
      by (auto simp: search_loop_step pybind_Inr simp del: search_loop.simps)
  next
    case False
    from Cons.IH [OF rest, of m b] False d show ?thesis
      by (auto simp: search_loop_step pybind_Inr simp del: search_loop.simps)
  qed
qed






section \<open>The documented warm-up example\<close>

text \<open>
  C3. The endpoint documentation and the specification promise the weights
  70.0, 98.0, 112.0 and 126.0 for \<open>rpe = 8\<close>, \<open>weight = 140\<close>, \<open>reps = 5\<close>. The function
  rounds every weight to a multiple of 2.5 and returns 70.0, 97.5, 112.5 and 125.0, with
  the set numbers, rep counts and descriptions as promised.
\<close>

theorem warmup_example_140:
  "calculate_warmup_sets (Fin 8) (Fin 140) 5 = Inr
     [\<lparr>set_number = 1, set_weight = Fin 70, warm_reps = 5, description = ''50% of top set''\<rparr>,
      \<lparr>set_number = 2, set_weight = Fin (195 / 2), warm_reps = 3, description = ''70% of top set''\<rparr>,
      \<lparr>set_number = 3, set_weight = Fin (225 / 2), warm_reps = 2, description = ''80% of top set''\<rparr>,
      \<lparr>set_number = 4, set_weight = Fin 125, warm_reps = 1, description = ''90% of top set''\<rparr>]"
  by (simp add: prog_eval cong: pybind_weak_cong)

section \<open>Warm-up sets do not look at the top set's RPE and repetitions\<close>

text \<open>
  C7. For any two valid pairs of RPE and repetitions, \<open>calculate_warmup_sets\<close> returns the
  same result on the same weight: after the three range checks the result is computed
  from the weight alone. (It holds for every weight, also where the function raises.)
\<close>

theorem warmups_independent:
  assumes "fle (Fin 5) rpe1" and "fle rpe1 (Fin 10)" and "1 \<le> reps1" and "reps1 \<le> 20"
    and "fle (Fin 5) rpe2" and "fle rpe2 (Fin 10)" and "1 \<le> reps2" and "reps2 \<le> 20"
  shows "calculate_warmup_sets rpe1 weight reps1 = calculate_warmup_sets rpe2 weight reps2"
  using assms by (simp add: calculate_warmup_sets_def)

theorem warmups_independent_witness:
  "fle (Fin 5) (Fin 8) \<and> fle (Fin 8) (Fin 10) \<and> (1::int) \<le> 5 \<and> (5::int) \<le> 20
   \<and> fle (Fin 5) (Fin (13 / 2)) \<and> fle (Fin (13 / 2)) (Fin 10) \<and> (1::int) \<le> 12 \<and> (12::int) \<le> 20
   \<and> calculate_warmup_sets (Fin 8) (Fin 140) 5 = calculate_warmup_sets (Fin (13 / 2)) (Fin 140) 12"
  using warmups_independent [of "Fin 8" 5 "Fin (13 / 2)" 12 "Fin 140"] by (simp add: fle_def)

section \<open>A light top set\<close>

lemma warmup_loop_two:
  "warmup_loop (Fin 2) 1 warmup_percentages [] = Inr
     [\<lparr>set_number = 1, set_weight = Fin 0, warm_reps = 5, description = ''50% of top set''\<rparr>,
      \<lparr>set_number = 2, set_weight = Fin (5 / 2), warm_reps = 3, description = ''70% of top set''\<rparr>,
      \<lparr>set_number = 3, set_weight = Fin (5 / 2), warm_reps = 2, description = ''80% of top set''\<rparr>,
      \<lparr>set_number = 4, set_weight = Fin (5 / 2), warm_reps = 1, description = ''90% of top set''\<rparr>]"
  by (simp add: prog_eval cong: pybind_weak_cong)

text \<open>
  C9. For the weight 2 and any valid RPE and repetitions, the four warm-up weights are
  0.0, 2.5, 2.5 and 2.5: a warm-up weight can be zero, and consecutive weights can be
  equal, although the input weight is positive.
\<close>

theorem warmup_weight_two:
  assumes "fle (Fin 5) rpe" and "fle rpe (Fin 10)" and "1 \<le> reps" and "reps \<le> 20"
  shows "map_sum id (map set_weight) (calculate_warmup_sets rpe (Fin 2) reps)
           = Inr [Fin 0, Fin (5 / 2), Fin (5 / 2), Fin (5 / 2)]"
  using assms by (simp add: calculate_warmup_sets_def warmup_loop_two fle_def)

theorem warmup_weight_two_witness:
  "fle (Fin 5) (Fin 8) \<and> fle (Fin 8) (Fin 10) \<and> (1::int) \<le> 5 \<and> (5::int) \<le> 20
   \<and> map_sum id (map set_weight) (calculate_warmup_sets (Fin 8) (Fin 2) 5)
           = Inr [Fin 0, Fin (5 / 2), Fin (5 / 2), Fin (5 / 2)]"
  using warmup_weight_two [of "Fin 8" 5] by (simp add: fle_def)

section \<open>The lookup against the specification\<close>

lemma reps_cases:
  "1 \<le> (reps::int) \<Longrightarrow> reps \<le> 10 \<Longrightarrow>
     reps = 1 \<or> reps = 2 \<or> reps = 3 \<or> reps = 4 \<or> reps = 5 \<or> reps = 6 \<or> reps = 7 \<or> reps = 8
     \<or> reps = 9 \<or> reps = 10"
  by arith

lemma table_hit:
  assumes "q \<in> set table_keys" and "1 \<le> reps" and "reps \<le> 10"
  shows "(case table_row q of None \<Rightarrow> None | Some row \<Rightarrow> map_of row reps) = Some (table_value q reps)"
proof -
  from assms(1) have q: "q = Fin 10 \<or> q = Fin (19 / 2) \<or> q = Fin 9 \<or> q = Fin (17 / 2) \<or> q = Fin 8 \<or> q = Fin (15 / 2)"
    by (auto simp: table_keys_def)
  from reps_cases [OF assms(2,3)] q show ?thesis
    by (elim disjE) (simp_all add: table_row_def table_value_def RPE_PERCENT_TABLE_def)
qed

lemma table_miss_key:
  assumes "q \<notin> set table_keys"
  shows "table_row q = None"
  using assms by (cases q) (simp_all add: table_row_def table_keys_def RPE_PERCENT_TABLE_def)

lemma table_miss_reps:
  assumes "\<not> (1 \<le> reps \<and> reps \<le> 10)"
  shows "(case table_row q of None \<Rightarrow> None | Some row \<Rightarrow> map_of row reps) = None"
proof (cases "q \<in> set table_keys")
  case False
  then show ?thesis by (simp add: table_miss_key)
next
  case True
  then have q: "q = Fin 10 \<or> q = Fin (19 / 2) \<or> q = Fin 9 \<or> q = Fin (17 / 2) \<or> q = Fin 8 \<or> q = Fin (15 / 2)"
    by (auto simp: table_keys_def)
  from assms have r: "reps < 1 \<or> 10 < reps" by arith
  from q r show ?thesis
    by (elim disjE) (simp_all add: table_row_def RPE_PERCENT_TABLE_def)
qed

lemma lookup_percent_eq_spec:
  "lookup_percent rpe reps = lookup_percent_spec rpe reps"
proof (cases "py_round (fmul rpe (Fin 2))")
  case (Inl e)
  then show ?thesis
    by (simp add: lookup_percent_def lookup_percent_spec_def quantize_def pybind_def)
next
  case (Inr n)
  show ?thesis
  proof (cases "int_truediv n 2")
    case (Inl e)
    with Inr show ?thesis
      by (simp add: lookup_percent_def lookup_percent_spec_def quantize_def pybind_def)
  next
    case q: (Inr q)
    show ?thesis
    proof (cases "q \<in> set table_keys \<and> 1 \<le> reps \<and> reps \<le> 10")
      case True
      then have "(case table_row q of None \<Rightarrow> None | Some row \<Rightarrow> map_of row reps) = Some (table_value q reps)"
        by (simp add: table_hit)
      with Inr q show ?thesis
        by (simp add: lookup_percent_def lookup_percent_spec_def quantize_def pybind_def
            percent_of_def if_P [OF True])
    next
      case False
      then have "(case table_row q of None \<Rightarrow> None | Some row \<Rightarrow> map_of row reps) = None"
        by (auto simp: table_miss_key table_miss_reps)
      with Inr q show ?thesis
        by (simp add: lookup_percent_def lookup_percent_spec_def quantize_def pybind_def
            epley_fallback_def if_not_P [OF False])
    qed
  qed
qed

text \<open>
  C2. For every RPE and every integer rep count, \<open>_lookup_percent\<close> is the specification's
  lookup: quantise the RPE; on one of the six table keys and a rep count from 1 to 10
  return the table entry over 100; otherwise return the closed-form estimate, which does
  not depend on the RPE. The equation covers the inputs on which both raise.
\<close>

theorem lookup_percent_refines_spec:
  "lookup_percent rpe reps = lookup_percent_spec rpe reps"
  by (rule lookup_percent_eq_spec)

section \<open>Ties of the quantisation\<close>

text \<open>
  C8. The quantisation rounds ties to even: 7.25 doubles to 14.5, which rounds to 14, and
  quantises to 7.0, which is no table key, so that every rep count from 1 to 10 takes the
  closed-form estimate; 7.75 doubles to 15.5, which rounds to 16, and quantises to 8.0,
  so that every rep count from 1 to 10 takes row 8 of the table, over 100.
\<close>

theorem rpe_tie_quantization:
  "quantize (Fin (29 / 4)) = Inr (Fin 7)
   \<and> table_row (Fin 7) = None
   \<and> map (lookup_percent (Fin (29 / 4))) [1..10] = map epley_fallback [1..10]
   \<and> quantize (Fin (31 / 4)) = Inr (Fin 8)
   \<and> table_row (Fin 8) = Some (zip [1..10] [92, 87, 84, 81, 79, 76, 74, 71, 69, 66])
   \<and> map (lookup_percent (Fin (31 / 4))) [1..10]
        = map percent_of [92, 87, 84, 81, 79, 76, 74, 71, 69, 66]"
  by (simp add: prog_eval cong: pybind_weak_cong)

section \<open>The lookup is not monotone in the repetitions\<close>

text \<open>
  C10. At RPE 10 the table gives 0.74 (the float nearest to it) for 10 repetitions, and
  the closed-form estimate gives about 0.7502 for 11 repetitions: the fraction of the
  one-rep maximum increases from 10 to 11 repetitions.
\<close>

theorem lookup_not_monotone:
  "lookup_percent (Fin 10) 10 = Inr (Fin (3332663724254167 / 4503599627370496))
   \<and> percent_of 74 = Inr (Fin (3332663724254167 / 4503599627370496))
   \<and> lookup_percent (Fin 10) 11 = Inr (Fin (6757088713234053 / 9007199254740992))
   \<and> epley_fallback 11 = Inr (Fin (6757088713234053 / 9007199254740992))
   \<and> \<bar>6757088713234053 / 9007199254740992 - 7502 / 10000 :: rat\<bar> < 1 / 10000
   \<and> flt (Fin (3332663724254167 / 4503599627370496)) (Fin (6757088713234053 / 9007199254740992))"
  by (simp add: prog_eval cong: pybind_weak_cong)

section \<open>What the search returns\<close>




section \<open>Binary64 numbers of a given magnitude\<close>

text \<open>An integer below \<open>2 ^ 53\<close> in magnitude, scaled by a power of two, rounds to itself.\<close>

lemma rnd_scaled:
  assumes m: "\<bar>m\<bar> < 2 ^ 53" and k: "- 1074 \<le> k"
  shows "rnd (of_int m * 2 powi k) = of_int m * 2 powi k"
proof (cases "m = 0")
  case True
  then show ?thesis by (simp add: rnd_zero)
next
  case False
  define x :: rat where "x = of_int m * 2 powi k"
  have x0: "x \<noteq> 0" using False by (simp add: x_def)
  have ax: "\<bar>x\<bar> = of_int \<bar>m\<bar> * 2 powi k"
    using two_powi_pos [of k] by (simp add: x_def abs_mult)
  have "(of_int \<bar>m\<bar> :: rat) < of_int (2 ^ 53)" using m by (simp only: of_int_less_iff)
  then have "\<bar>x\<bar> < of_int (2 ^ 53) * 2 powi k"
    using two_powi_pos [of k] by (simp add: ax)
  also have "of_int (2 ^ 53) * 2 powi k = (2::rat) powi 53 * 2 powi k" by simp
  also have "\<dots> = 2 powi (53 + k)" by (simp only: two_powi_add)
  finally have xlt: "\<bar>x\<bar> < 2 powi (53 + k)" .
  then have e: "expo x < 53 + k" by (rule expo_less [OF x0])
  define j where "j = k - (max (expo x) (- 1022) - 52)"
  have j0: "0 \<le> j" using e k by (simp add: j_def)
  have q: "quantum x = 2 powi (k - j)" by (simp add: quantum_def j_def)
  have "x / quantum x = x / 2 powi (k - j)" by (simp only: q)
  also have "\<dots> = of_int m * (2 powi k / 2 powi (k - j))" by (simp add: x_def)
  also have "2 powi k / 2 powi (k - j) = (2::rat) powi j" by (simp only: two_powi_diff) simp
  also have "(2::rat) powi j = of_int (2 ^ nat j)" using j0 by (simp add: two_powi_nat)
  finally have "x / quantum x = of_int (m * 2 ^ nat j)" by simp
  then have "round_half_even (x / quantum x) = m * 2 ^ nat j" by (simp only: rhe_of_int)
  then have "rnd x = of_int (m * 2 ^ nat j) * 2 powi (k - j)" using x0 by (simp add: rnd_def q)
  also have "\<dots> = of_int m * (2 powi j * 2 powi (k - j))" using j0 by (simp add: two_powi_nat)
  also have "2 powi j * 2 powi (k - j) = (2::rat) powi k" by (simp add: two_powi_add)
  finally show ?thesis by (simp add: x_def)
qed

lemma rnd_two_powi: "- 1074 \<le> k \<Longrightarrow> rnd (2 powi k) = 2 powi k"
  using rnd_scaled [of 1 k] by simp

text \<open>A binary64 number below \<open>2 powi (e + 1)\<close> is at most the largest one of exponent \<open>e\<close>.\<close>

lemma is_double_bound:
  assumes "is_double x" and "\<bar>x\<bar> < 2 powi (e + 1)" and "- 1022 \<le> e"
  shows "\<bar>x\<bar> \<le> (2 ^ 53 - 1) * 2 powi (e - 52)"
proof (cases "x = 0")
  case True
  then show ?thesis using two_powi_pos [of "e - 52"] by simp
next
  case False
  define E where "E = max (expo x) (- 1022)"
  define m where "m = round_half_even (x / quantum x)"
  have q: "quantum x = 2 powi (E - 52)" by (simp add: quantum_def E_def)
  have qpos: "0 < (2::rat) powi (E - 52)" by (rule two_powi_pos)
  have "expo x < e + 1" using False assms(2) by (rule expo_less)
  then have Ee: "E \<le> e" using assms(3) by (simp add: E_def)
  have r: "x = of_int m * 2 powi (E - 52)"
    using assms(1) False by (simp add: is_double_iff rnd_def m_def q)
  have "\<bar>x\<bar> < 2 powi (expo x + 1)" by (rule expo_upper [OF False])
  also have "\<dots> \<le> 2 powi (E + 1)" by (simp only: two_powi_le_iff) (simp add: E_def)
  also have "\<dots> = 2 powi 53 * 2 powi (E - 52)" by (simp only: two_powi_add) (simp add: add.commute)
  finally have "\<bar>of_int m * 2 powi (E - 52)\<bar> < (2::rat) powi 53 * 2 powi (E - 52)"
    using r by simp
  then have "(of_int \<bar>m\<bar> :: rat) * 2 powi (E - 52) < 2 powi 53 * 2 powi (E - 52)"
    using qpos by (simp add: abs_mult)
  then have "(of_int \<bar>m\<bar> :: rat) < 2 powi 53" using qpos by simp
  also have "(2::rat) powi 53 = of_int (2 ^ 53)" by simp
  finally have "\<bar>m\<bar> < 2 ^ 53" by (simp only: of_int_less_iff)
  then have "\<bar>m\<bar> \<le> 2 ^ 53 - 1" by simp
  then have "(of_int \<bar>m\<bar> :: rat) \<le> of_int (2 ^ 53 - 1)" by (simp only: of_int_le_iff)
  then have m1: "(of_int \<bar>m\<bar> :: rat) \<le> 2 ^ 53 - 1" by simp
  have "\<bar>x\<bar> = of_int \<bar>m\<bar> * 2 powi (E - 52)" using qpos by (subst r) (simp add: abs_mult)
  also have "\<dots> \<le> (2 ^ 53 - 1) * 2 powi (E - 52)" using m1 qpos by (simp add: mult_right_mono)
  also have "\<dots> \<le> (2 ^ 53 - 1) * 2 powi (e - 52)"
    using Ee by (intro mult_left_mono) (simp_all only: two_powi_le_iff, simp_all)
  finally show ?thesis .
qed

lemma rhe_below_half:
  assumes "of_int m \<le> y" and "y < of_int m + 1 / 2"
  shows "round_half_even y = m"
proof -
  have "\<lfloor>y\<rfloor> = m" using assms by (intro floor_unique) simp_all
  then show ?thesis using assms by (simp add: rhe_unfold)
qed

lemma rhe_tie_odd:
  assumes "y = of_int m + 1 / 2" and "odd m"
  shows "round_half_even y = m + 1"
proof -
  have "\<lfloor>y\<rfloor> = m" using assms by (intro floor_unique) simp_all
  then show ?thesis using assms by (simp add: rhe_unfold)
qed

section \<open>Where the lookup returns and where it raises\<close>

text \<open>
  The largest binary64 number is \<open>(2 ^ 53 - 1) * 2 ^ 971\<close>. Doubling a binary64 number
  stays finite exactly below \<open>2 ^ 1023\<close> in magnitude; an \<open>int\<close> converts to a float
  exactly below \<open>2 ^ 1024 - 2 ^ 970\<close>, the midpoint that rounds up to \<open>2 ^ 1024\<close>.
\<close>

lemma big_doubles:
  "is_double ((2 ^ 53 - 1) * 2 ^ 971)" "is_double ((2 ^ 53 - 1) * 2 ^ 970)"
  "is_double (2 ^ 1020)" "is_double (2 ^ 1021)" "is_double (1 / 2 ^ 1021)"
  using is_double_scaled [of "2 ^ 53 - 1" 971] is_double_scaled [of "2 ^ 53 - 1" 970]
    is_double_two_powi [of 1020] is_double_two_powi [of 1021] is_double_two_powi [of "- 1021"]
  by (simp_all add: power_int_minus field_simps)

lemma quantize_finite:
  assumes "is_double r" and "\<bar>r\<bar> < 2 ^ 1023"
  shows "\<exists>q. quantize (Fin r) = Inr q"
proof -
  have "\<bar>r\<bar> < 2 powi (1022 + 1)" using assms(2) by simp
  from is_double_bound [OF assms(1) this] have rb: "\<bar>r\<bar> \<le> (2 ^ 53 - 1) * 2 ^ 970" by simp
  have d: "is_double (- ((2 ^ 53 - 1) * 2 ^ 971))" "is_double (- ((2 ^ 53 - 1) * 2 ^ 970))"
    using big_doubles(1,2) by (simp_all only: is_double_minus)
  have a: "- ((2 ^ 53 - 1) * 2 ^ 971) \<le> r * 2" and b: "r * 2 \<le> (2 ^ 53 - 1) * 2 ^ 971"
    using rb by (simp_all add: abs_le_iff)
  note y = fl_between [OF a b d(1) big_doubles(1)]
  define y' where "y' = rnd (r * 2)"
  define n where "n = round_half_even y'"
  have "round_half_even (of_int (- ((2 ^ 53 - 1) * 2 ^ 971))) \<le> n"
    unfolding n_def using y(2) by (intro rhe_mono) (simp add: y'_def)
  then have n0: "- ((2 ^ 53 - 1) * 2 ^ 971) \<le> n" by (simp only: rhe_of_int)
  have "n \<le> round_half_even (of_int ((2 ^ 53 - 1) * 2 ^ 971))"
    unfolding n_def using y(3) by (intro rhe_mono) (simp add: y'_def)
  then have n1: "n \<le> (2 ^ 53 - 1) * 2 ^ 971" by (simp only: rhe_of_int)
  have "(of_int (- ((2 ^ 53 - 1) * 2 ^ 971)) :: rat) \<le> of_int n" using n0 by (simp only: of_int_le_iff)
  then have h0: "- ((2 ^ 53 - 1) * 2 ^ 970) \<le> (of_int n :: rat) / of_int 2" by simp
  have "(of_int n :: rat) \<le> of_int ((2 ^ 53 - 1) * 2 ^ 971)" using n1 by (simp only: of_int_le_iff)
  then have h1: "(of_int n :: rat) / of_int 2 \<le> (2 ^ 53 - 1) * 2 ^ 970" by simp
  note h = fl_between [OF h0 h1 d(2) big_doubles(2)]
  have "quantize (Fin r) = Inr (Fin (rnd (of_int n / of_int 2)))"
    using y(1) h(1)
    by (simp add: quantize_def fmul_def py_round_def pybind_Inr int_truediv_def n_def y'_def)
  then show ?thesis by blast
qed

lemma fl_overflow_pos:
  assumes "2 ^ 1024 \<le> x"
  shows "fl x = PInf"
proof -
  have "rnd (2 powi 1024) \<le> rnd x" using assms by (intro rnd_mono) simp
  then have "2 powi 1024 \<le> rnd x" by (simp only: rnd_two_powi)
  then have "2 ^ 1024 \<le> rnd x" by simp
  then show ?thesis by (simp add: fl_def Let_def too_large_iff)
qed

lemma fl_overflow_neg:
  assumes "x \<le> - (2 ^ 1024)"
  shows "fl x = NInf"
proof -
  have "rnd x \<le> rnd (- (2 powi 1024))" using assms by (intro rnd_mono) simp
  then have "rnd x \<le> - (2 powi 1024)" by (simp only: rnd_minus rnd_two_powi)
  then have "rnd x \<le> - (2 ^ 1024)" by simp
  then show ?thesis by (simp add: fl_def Let_def too_large_iff)
qed

lemma quantize_overflow:
  assumes "2 ^ 1023 \<le> \<bar>r\<bar>"
  shows "quantize (Fin r) = Inl OverflowError"
proof (cases "0 \<le> r")
  case True
  with assms have "2 ^ 1024 \<le> r * 2" by simp
  then have "fl (r * 2) = PInf" by (rule fl_overflow_pos)
  then show ?thesis by (simp add: quantize_def fmul_def py_round_def pybind_Inl)
next
  case False
  with assms have "r * 2 \<le> - (2 ^ 1024)" by simp
  then have "fl (r * 2) = NInf" by (rule fl_overflow_neg)
  then show ?thesis by (simp add: quantize_def fmul_def py_round_def pybind_Inl)
qed

lemma rnd_le_max:
  assumes "0 \<le> x" and "x < 2 ^ 1024 - 2 ^ 970"
  shows "rnd x \<le> (2 ^ 53 - 1) * 2 ^ 971"
proof (cases "x \<le> (2 ^ 53 - 1) * 2 ^ 971")
  case True
  from rnd_mono [OF this] big_doubles(1) show ?thesis by (simp add: is_double_iff)
next
  case False
  then have lo: "(2 ^ 53 - 1) * 2 ^ 971 < x" by simp
  have x0: "x \<noteq> 0" using lo by auto
  have "2 powi 1023 \<le> \<bar>x\<bar>" using lo by simp
  moreover have "\<bar>x\<bar> < 2 powi (1023 + 1)" using assms by simp
  ultimately have e: "expo x = 1023" by (rule expo_unique)
  have q: "quantum x = 2 powi 971" by (simp add: quantum_def e)
  have "of_int (2 ^ 53 - 1) \<le> x / 2 powi 971" using lo by (simp add: field_simps)
  moreover have "x / 2 powi 971 < of_int (2 ^ 53 - 1) + 1 / 2" using assms(2) by (simp add: field_simps)
  ultimately have "round_half_even (x / 2 powi 971) = 2 ^ 53 - 1" by (rule rhe_below_half)
  then show ?thesis using x0 by (simp add: rnd_def q)
qed

lemma rnd_threshold: "rnd (2 ^ 1024 - 2 ^ 970) = 2 ^ 1024"
proof -
  define x :: rat where "x = 2 ^ 1024 - 2 ^ 970"
  have x0: "x \<noteq> 0" by (simp add: x_def)
  have "2 powi 1023 \<le> \<bar>x\<bar>" by (simp add: x_def)
  moreover have "\<bar>x\<bar> < 2 powi (1023 + 1)" by (simp add: x_def)
  ultimately have e: "expo x = 1023" by (rule expo_unique)
  have q: "quantum x = 2 powi 971" by (simp add: quantum_def e)
  have "x / 2 powi 971 = of_int (2 ^ 53 - 1) + 1 / 2" by (simp add: x_def)
  moreover have "odd ((2::int) ^ 53 - 1)" by simp
  ultimately have "round_half_even (x / 2 powi 971) = 2 ^ 53 - 1 + 1" by (rule rhe_tie_odd)
  then have "rnd x = 2 ^ 1024" using x0 by (simp add: rnd_def q)
  then show ?thesis by (simp add: x_def)
qed

lemma int_to_float_finite:
  assumes "0 \<le> k" and "k < 2 ^ 1024 - 2 ^ 970"
  shows "\<exists>y. int_to_float k = Inr (Fin y) \<and> 0 \<le> y \<and> y \<le> (2 ^ 53 - 1) * 2 ^ 971"
proof -
  have a: "(0::rat) \<le> of_int k" using assms(1) by simp
  have "(of_int k :: rat) < of_int (2 ^ 1024 - 2 ^ 970)" using assms(2) by (simp only: of_int_less_iff)
  then have b: "(of_int k :: rat) < 2 ^ 1024 - 2 ^ 970" by simp
  have hi: "rnd (of_int k) \<le> (2 ^ 53 - 1) * 2 ^ 971" using a b by (rule rnd_le_max)
  have lo: "0 \<le> rnd (of_int k)" using a by (rule rnd_nonneg)
  have "\<bar>rnd (of_int k)\<bar> < 2 ^ 1024" using lo hi by simp
  then have "fl (of_int k) = Fin (rnd (of_int k))" by (rule fl_Fin)
  then show ?thesis using lo hi by (simp add: int_to_float_def)
qed

lemma int_to_float_overflow:
  assumes "2 ^ 1024 - 2 ^ 970 \<le> k"
  shows "int_to_float k = Inl OverflowError"
proof -
  have "(of_int (2 ^ 1024 - 2 ^ 970) :: rat) \<le> of_int k" using assms by (simp only: of_int_le_iff)
  then have "(2 ^ 1024 - 2 ^ 970 :: rat) \<le> of_int k" by simp
  from rnd_mono [OF this] have "2 ^ 1024 \<le> rnd (of_int k)" by (simp only: rnd_threshold)
  then have "fl (of_int k) = PInf" by (simp add: fl_def Let_def too_large_iff)
  then show ?thesis by (simp add: int_to_float_def)
qed

lemma epley_fallback_finite:
  assumes "1 \<le> reps" and "reps - 1 < 2 ^ 1024 - 2 ^ 970"
  shows "\<exists>p. epley_fallback reps = Inr (Fin p) \<and> 0 < p \<and> p \<le> 1"
proof -
  have "0 \<le> reps - 1" using assms(1) by simp
  from int_to_float_finite [OF this assms(2)]
  obtain k where k: "int_to_float (reps - 1) = Inr (Fin k)" "0 \<le> k" "k \<le> (2 ^ 53 - 1) * 2 ^ 971"
    by blast
  define c :: rat where "c = 4799035762926001 / 144115188075855872"
  have c: "0 \<le> c" "c \<le> 1 / 16" by (simp_all add: c_def)
  have k2: "k \<le> 2 ^ 1024" using k(3) by simp
  have t0: "0 \<le> c * k" using c k by simp
  have "c * k \<le> (1 / 16) * 2 ^ 1024" using c k(2) k2 by (intro mult_mono) simp_all
  then have t1: "c * k \<le> 2 ^ 1020" by simp
  note t = fl_between [OF t0 t1 is_double_zero big_doubles(3)]
  define t' where "t' = rnd (c * k)"
  have u0: "1 \<le> 1 + t'" using t(2) by (simp add: t'_def)
  have u1: "1 + t' \<le> 2 ^ 1021" using t(3) by (simp add: t'_def)
  note u = fl_between [OF u0 u1 is_double_examples(1) big_doubles(4)]
  define u' where "u' = rnd (1 + t')"
  have upos: "0 < u'" using u(2) by (simp add: u'_def)
  have p0: "1 / 2 ^ 1021 \<le> 1 / u'" using u(3) upos by (simp add: u'_def field_simps)
  have p1: "1 / u' \<le> 1" using u(2) upos by (simp add: u'_def)
  note p = fl_between [OF p0 p1 big_doubles(5) is_double_examples(1)]
  have "epley_fallback reps = Inr (Fin (rnd (1 / u')))"
    using k(1) t(1) u(1) p(1) upos
    by (simp add: epley_fallback_def pybind_Inr fl_333 fmul_def fadd_def fdiv_def c_def t'_def u'_def)
  moreover have "0 < rnd (1 / u')" using p(2) by (simp add: less_le_trans [of 0 "1 / 2 ^ 1021"])
  ultimately show ?thesis using p(3) by blast
qed

lemma epley_fallback_overflow:
  assumes "2 ^ 1024 - 2 ^ 970 \<le> reps - 1"
  shows "epley_fallback reps = Inl OverflowError"
  using int_to_float_overflow [OF assms] by (simp add: epley_fallback_def pybind_Inl)

lemma lookup_percent_finite:
  assumes "is_double r" and "\<bar>r\<bar> < 2 ^ 1023" and "1 \<le> reps" and "reps - 1 < 2 ^ 1024 - 2 ^ 970"
  shows "\<exists>p. lookup_percent (Fin r) reps = Inr (Fin p) \<and> 0 < p \<and> p \<le> 1"
proof -
  from quantize_finite [OF assms(1,2)] obtain q where q: "quantize (Fin r) = Inr q" ..
  show ?thesis
  proof (cases "case table_row q of None \<Rightarrow> None | Some row \<Rightarrow> map_of row reps")
    case None
    with q have "lookup_percent (Fin r) reps = epley_fallback reps"
      by (simp add: lookup_percent_unfold pybind_Inr)
    with epley_fallback_finite [OF assms(3,4)] show ?thesis by simp
  next
    case (Some v)
    then obtain row where "table_row q = Some row" "map_of row reps = Some v"
      by (auto split: option.splits)
    then have "64 \<le> v \<and> v \<le> 100" by (rule table_entry_range)
    then obtain p where "percent_of v = Inr (Fin p)" "1 / 2 \<le> p" "p \<le> 1"
      using percent_of_range by blast
    moreover from q Some have "lookup_percent (Fin r) reps = percent_of v"
      by (simp add: lookup_percent_unfold pybind_Inr)
    ultimately show ?thesis by (intro exI [of _ p]) simp
  qed
qed

lemma lookup_percent_raises:
  assumes "is_double r" and "1 \<le> reps"
    and "\<not> (\<bar>r\<bar> < 2 ^ 1023 \<and> reps - 1 < 2 ^ 1024 - 2 ^ 970)"
  shows "lookup_percent (Fin r) reps = Inl OverflowError"
proof (cases "\<bar>r\<bar> < 2 ^ 1023")
  case False
  then have "2 ^ 1023 \<le> \<bar>r\<bar>" by simp
  then have "quantize (Fin r) = Inl OverflowError" by (rule quantize_overflow)
  then show ?thesis by (simp add: lookup_percent_unfold pybind_Inl)
next
  case True
  with assms(3) have big: "2 ^ 1024 - 2 ^ 970 \<le> reps - 1" by simp
  have "(10::int) < 2 ^ 1024 - 2 ^ 970" by simp
  with big have "\<not> (1 \<le> reps \<and> reps \<le> 10)" by linarith
  from quantize_finite [OF assms(1) True] obtain q where q: "quantize (Fin r) = Inr q" ..
  have "(case table_row q of None \<Rightarrow> None | Some row \<Rightarrow> map_of row reps) = None"
    using \<open>\<not> (1 \<le> reps \<and> reps \<le> 10)\<close> by (rule table_miss_reps)
  with q have "lookup_percent (Fin r) reps = epley_fallback reps"
    by (simp add: lookup_percent_unfold pybind_Inr)
  with epley_fallback_overflow [OF big] show ?thesis by simp
qed

lemma lookup_percent_nonfinite:
  "lookup_percent PInf reps = Inl OverflowError"
  "lookup_percent NInf reps = Inl OverflowError"
  "lookup_percent NaN reps = Inl (ValueError ''cannot convert float NaN to integer'')"
  by (simp_all add: lookup_percent_def fmul_def fsign_def signed_inf_def py_round_def pybind_Inl)

lemma lookup_percent_one_rep:
  assumes "quantize rpe = Inr q" and "q \<notin> set table_keys"
  shows "lookup_percent rpe 1 = Inr (Fin 1)"
proof -
  have "lookup_percent rpe 1 = lookup_percent_spec rpe 1" by (rule lookup_percent_eq_spec)
  also have "\<dots> = epley_fallback 1"
    using assms by (simp add: lookup_percent_spec_def pybind_Inr)
  finally show ?thesis by (simp only: epley_fallback_one)
qed

lemma lookup_percent_guard:
  assumes "t \<in> {1..15}" and "fle (Fin 5) rpe \<and> fle rpe (Fin 10)"
  shows "\<exists>pct. lookup_percent rpe t = Inr pct \<and> flt (Fin 0) pct"
proof -
  from assms(1) have "1 \<le> t" "t \<le> 2 ^ 1023" by simp_all
  with assms(2) obtain p where "lookup_percent rpe t = Inr (Fin p)" "0 < p"
    using lookup_percent_valid [of rpe t] by blast
  then show ?thesis by (simp add: flt_def)
qed

section \<open>The range of the lookup\<close>

text \<open>
  C6, as stated, fails when \<open>_lookup_percent\<close> is called on its own with values far outside
  what \<open>predict_max_reps\<close> passes to it: doubling an RPE of \<open>2 ^ 1023\<close> overflows to
  infinity, which \<open>round\<close> refuses with an OverflowError; the rep count \<open>2 ^ 1024 + 1\<close>
  does not convert to a float in the closed-form estimate; a NaN makes \<open>round\<close> raise a
  ValueError.
\<close>

theorem lookup_percent_overflow:
  "lookup_percent (Fin (2 ^ 1023)) 1 = Inl OverflowError
   \<and> (1::int) \<le> 2 ^ 1024 + 1 \<and> lookup_percent (Fin 7) (2 ^ 1024 + 1) = Inl OverflowError
   \<and> lookup_percent NaN 1 = Inl (ValueError ''cannot convert float NaN to integer'')"
  by (simp add: prog_eval cong: pybind_weak_cong)

text \<open>
  C6, amended. Let the RPE be a binary64 number and the rep count an integer, at least 1.
  If \<open>|rpe| < 2 ^ 1023\<close> and \<open>reps - 1 < 2 ^ 1024 - 2 ^ 970\<close>, \<open>_lookup_percent\<close> returns a
  float \<open>v\<close> with \<open>0 < v \<le> 1\<close>; otherwise it raises an OverflowError. It raises an
  OverflowError on an infinite RPE and a ValueError on a NaN. At one repetition, with a
  quantised RPE that is no key of the table, it returns exactly 1.0. For every RPE from 5
  to 10 each of the candidates 1 to 15 of \<open>predict_max_reps\<close> gets a fraction above zero, so
  that its branch for \<open>pct \<le> 0\<close> is never taken.
\<close>

theorem lookup_percent_fraction:
  assumes "is_double r" and "1 \<le> reps"
  shows "(if \<bar>r\<bar> < 2 ^ 1023 \<and> reps - 1 < 2 ^ 1024 - 2 ^ 970
          then \<exists>p. lookup_percent (Fin r) reps = Inr (Fin p) \<and> 0 < p \<and> p \<le> 1
          else lookup_percent (Fin r) reps = Inl OverflowError)
         \<and> lookup_percent PInf reps = Inl OverflowError
         \<and> lookup_percent NInf reps = Inl OverflowError
         \<and> lookup_percent NaN reps = Inl (ValueError ''cannot convert float NaN to integer'')
         \<and> (\<forall>q. quantize (Fin r) = Inr q \<and> q \<notin> set table_keys \<longrightarrow>
               lookup_percent (Fin r) 1 = Inr (Fin 1))
         \<and> (\<forall>rpe. \<forall>t\<in>{1..15}. fle (Fin 5) rpe \<and> fle rpe (Fin 10) \<longrightarrow>
               (\<exists>pct. lookup_percent rpe t = Inr pct \<and> flt (Fin 0) pct))"
proof (intro conjI allI ballI impI)
  show "if \<bar>r\<bar> < 2 ^ 1023 \<and> reps - 1 < 2 ^ 1024 - 2 ^ 970
        then \<exists>p. lookup_percent (Fin r) reps = Inr (Fin p) \<and> 0 < p \<and> p \<le> 1
        else lookup_percent (Fin r) reps = Inl OverflowError"
  proof (cases "\<bar>r\<bar> < 2 ^ 1023 \<and> reps - 1 < 2 ^ 1024 - 2 ^ 970")
    case True
    then have "\<exists>p. lookup_percent (Fin r) reps = Inr (Fin p) \<and> 0 < p \<and> p \<le> 1"
      using assms by (intro lookup_percent_finite) simp_all
    then show ?thesis by (simp only: if_P [OF True])
  next
    case False
    from assms False have "lookup_percent (Fin r) reps = Inl OverflowError"
      by (rule lookup_percent_raises)
    then show ?thesis by (simp only: if_not_P [OF False])
  qed
  show "lookup_percent PInf reps = Inl OverflowError"
    and "lookup_percent NInf reps = Inl OverflowError"
    and "lookup_percent NaN reps = Inl (ValueError ''cannot convert float NaN to integer'')"
    by (rule lookup_percent_nonfinite)+
next
  fix q assume "quantize (Fin r) = Inr q \<and> q \<notin> set table_keys"
  then show "lookup_percent (Fin r) 1 = Inr (Fin 1)"
    by (elim conjE) (rule lookup_percent_one_rep)
next
  fix rpe :: pyfloat and t :: int
  assume "t \<in> {1..15}" and "fle (Fin 5) rpe \<and> fle rpe (Fin 10)"
  then show "\<exists>pct. lookup_percent rpe t = Inr pct \<and> flt (Fin 0) pct"
    by (rule lookup_percent_guard)
qed

theorem lookup_percent_fraction_witness:
  "is_double 8 \<and> (1::int) \<le> 12 \<and> \<bar>8 :: rat\<bar> < 2 ^ 1023 \<and> (12::int) - 1 < 2 ^ 1024 - 2 ^ 970
   \<and> (\<exists>p. lookup_percent (Fin 8) 12 = Inr (Fin p) \<and> 0 < p \<and> p \<le> 1)
   \<and> is_double (2 ^ 1023) \<and> \<not> \<bar>2 ^ 1023 :: rat\<bar> < 2 ^ 1023
   \<and> lookup_percent (Fin (2 ^ 1023)) 12 = Inl OverflowError
   \<and> lookup_percent PInf 12 = Inl OverflowError
   \<and> lookup_percent NInf 12 = Inl OverflowError
   \<and> lookup_percent NaN 12 = Inl (ValueError ''cannot convert float NaN to integer'')
   \<and> is_double 7 \<and> quantize (Fin 7) = Inr (Fin 7) \<and> Fin 7 \<notin> set table_keys
   \<and> lookup_percent (Fin 7) 1 = Inr (Fin 1)
   \<and> (3::int) \<in> {1..15} \<and> fle (Fin 5) (Fin 8) \<and> fle (Fin 8) (Fin 10)
   \<and> (\<exists>pct. lookup_percent (Fin 8) 3 = Inr pct \<and> flt (Fin 0) pct)"
proof -
  have d8: "is_double 8" using is_double_of_int [of 8] by simp
  have d7: "is_double 7" using is_double_of_int [of 7] by simp
  have dm: "is_double (2 ^ 1023)" by (rule is_double_examples(3))
  have h: "(1::int) \<le> 12" "\<bar>8 :: rat\<bar> < 2 ^ 1023" "(12::int) - 1 < 2 ^ 1024 - 2 ^ 970"
    "\<not> \<bar>2 ^ 1023 :: rat\<bar> < 2 ^ 1023" "(1::int) \<le> 1" by simp_all
  have v: "(3::int) \<in> {1..15}" "fle (Fin 5) (Fin 8)" "fle (Fin 8) (Fin 10)"
    by (simp_all add: fle_def)
  have q: "quantize (Fin 7) = Inr (Fin 7)" "Fin 7 \<notin> set table_keys"
    by (simp_all add: quantize_def table_keys_def prog_eval cong: pybind_weak_cong)
  have a: "\<exists>p. lookup_percent (Fin 8) 12 = Inr (Fin p) \<and> 0 < p \<and> p \<le> 1"
    using lookup_percent_fraction [OF d8 h(1)] h(2,3) by simp
  have b: "lookup_percent (Fin (2 ^ 1023)) 12 = Inl OverflowError"
    using lookup_percent_fraction [OF dm h(1)] h(4) by simp
  have c1: "lookup_percent PInf 12 = Inl OverflowError"
    using lookup_percent_fraction [OF d8 h(1)] by (elim conjE)
  have c2: "lookup_percent NInf 12 = Inl OverflowError"
    using lookup_percent_fraction [OF d8 h(1)] by (elim conjE)
  have c3: "lookup_percent NaN 12 = Inl (ValueError ''cannot convert float NaN to integer'')"
    using lookup_percent_fraction [OF d8 h(1)] by (elim conjE)
  have "\<forall>q. quantize (Fin 7) = Inr q \<and> q \<notin> set table_keys \<longrightarrow>
      lookup_percent (Fin 7) 1 = Inr (Fin 1)"
    using lookup_percent_fraction [OF d7 h(5)] by (elim conjE)
  with q have e: "lookup_percent (Fin 7) 1 = Inr (Fin 1)" by blast
  have "\<forall>rpe. \<forall>t\<in>{1..15}. fle (Fin 5) rpe \<and> fle rpe (Fin 10) \<longrightarrow>
      (\<exists>pct. lookup_percent rpe t = Inr pct \<and> flt (Fin 0) pct)"
    using lookup_percent_fraction [OF d8 h(1)] by (elim conjE)
  with v have f: "\<exists>pct. lookup_percent (Fin 8) 3 = Inr pct \<and> flt (Fin 0) pct" by blast
  from d8 h(1,2,3) a dm h(4) b c1 c2 c3 d7 q e v f show ?thesis by (intro conjI)
qed

section \<open>The warm-up weights\<close>

text \<open>
  One iteration of the loop computes \<open>round_to_plate\<close>; on a finite weight nothing
  overflows, and the count \<open>round(weight * pct / 2.5)\<close> grows with the weight and with
  the percentage.
\<close>

lemma warmup_loop_step:
  "warmup_loop weight idx ((pct, r, d) # rest) acc =
     pybind (round_to_plate weight pct) (\<lambda>sw.
       warmup_loop weight (idx + 1) rest
         (acc @ [\<lparr>set_number = idx, set_weight = sw, warm_reps = r, description = d\<rparr>]))"
  by (simp add: round_to_plate_def pybind_def split: sum.splits)

lemma round_to_plate_finite:
  assumes "0 \<le> w" and "w < 2 ^ 1024" and "0 \<le> p" and "p \<le> 15 / 16"
  shows "round_to_plate (Fin w) (Fin p) = Inr (Fin (plate w p))" and "0 \<le> plate w p"
proof -
  have a0: "0 \<le> w * p" using assms by simp
  have "w * p \<le> 2 ^ 1024 * (15 / 16)" using assms by (intro mult_mono) simp_all
  then have a1: "w * p \<le> 15 * 2 ^ 1020" by simp
  note a = fl_between [OF a0 a1 is_double_zero is_double_examples(6)]
  define a' where "a' = rnd (w * p)"
  have b0: "0 \<le> a' / (5 / 2)" using a(2) by (simp add: a'_def)
  have b1: "a' / (5 / 2) \<le> 6 * 2 ^ 1020" using a(3) by (simp add: a'_def)
  note b = fl_between [OF b0 b1 is_double_zero is_double_examples(7)]
  define b' where "b' = rnd (a' / (5 / 2))"
  define n where "n = round_half_even b'"
  have "round_half_even (of_int 0) \<le> n" unfolding n_def using b(2) by (intro rhe_mono) (simp add: b'_def)
  then have n0: "0 \<le> n" by (simp only: rhe_of_int)
  have "n \<le> round_half_even (of_int (6 * 2 ^ 1020))"
    unfolding n_def using b(3) by (intro rhe_mono) (simp add: b'_def)
  then have n1: "n \<le> 6 * 2 ^ 1020" by (simp only: rhe_of_int)
  have c0: "(0::rat) \<le> of_int n" using n0 by simp
  have "(of_int n :: rat) \<le> of_int (6 * 2 ^ 1020)" using n1 by (simp only: of_int_le_iff)
  then have c1: "(of_int n :: rat) \<le> 6 * 2 ^ 1020" by simp
  note c = fl_between [OF c0 c1 is_double_zero is_double_examples(7)]
  define c' where "c' = rnd (of_int n)"
  have d0: "0 \<le> c' * (5 / 2)" using c(2) by (simp add: c'_def)
  have d1: "c' * (5 / 2) \<le> 15 * 2 ^ 1020" using c(3) by (simp add: c'_def)
  note d = fl_between [OF d0 d1 is_double_zero is_double_examples(6)]
  have pl: "plate w p = rnd (c' * (5 / 2))"
    by (simp add: plate_def plate_count_def c'_def n_def b'_def a'_def)
  show "round_to_plate (Fin w) (Fin p) = Inr (Fin (plate w p))"
    using a(1) b(1) c(1) d(1)
    by (simp add: round_to_plate_def fmul_def fdiv_def py_round_def int_to_float_def pybind_Inr pl
        c'_def n_def b'_def a'_def)
  show "0 \<le> plate w p" using d(2) by (simp add: pl)
qed

lemma plate_count_mono:
  assumes "0 \<le> w" and "w \<le> w'" and "0 \<le> p" and "p \<le> p'"
  shows "plate_count w p \<le> plate_count w' p'"
proof -
  have "w * p \<le> w' * p'" using assms by (intro mult_mono) simp_all
  then have "rnd (w * p) \<le> rnd (w' * p')" by (rule rnd_mono)
  then have "rnd (w * p) / (5 / 2) \<le> rnd (w' * p') / (5 / 2)" by simp
  then have "rnd (rnd (w * p) / (5 / 2)) \<le> rnd (rnd (w' * p') / (5 / 2))" by (rule rnd_mono)
  then show ?thesis unfolding plate_count_def by (rule rhe_mono)
qed

lemma plate_count_nonneg:
  assumes "0 \<le> w" and "0 \<le> p"
  shows "0 \<le> plate_count w p"
proof -
  have "plate_count 0 0 \<le> plate_count w p" using assms by (intro plate_count_mono) simp_all
  moreover have "plate_count 0 0 = 0"
    using rhe_of_int [of 0] by (simp add: plate_count_def rnd_zero)
  ultimately show ?thesis by simp
qed

lemma plate_mono:
  assumes "0 \<le> w" and "0 \<le> p" and "p \<le> p'"
  shows "plate w p \<le> plate w p'"
proof -
  have "plate_count w p \<le> plate_count w p'" using assms by (intro plate_count_mono) simp_all
  then have "(of_int (plate_count w p) :: rat) \<le> of_int (plate_count w p')"
    by (simp only: of_int_le_iff)
  then have "rnd (of_int (plate_count w p)) \<le> rnd (of_int (plate_count w p'))" by (rule rnd_mono)
  then have "rnd (of_int (plate_count w p)) * (5 / 2) \<le> rnd (of_int (plate_count w p')) * (5 / 2)"
    by simp
  then show ?thesis unfolding plate_def by (rule rnd_mono)
qed

text \<open>
  The product with 2.5 is exact as long as five times the count is below \<open>2 ^ 53\<close>, that
  is, up to the count 1801439850948198.
\<close>

lemma plate_exact:
  assumes "0 \<le> n" and "n \<le> 1801439850948198"
  shows "rnd (rnd (of_int n) * (5 / 2)) = of_int n * (5 / 2)"
proof -
  have "is_double (of_int n)" using assms by (intro is_double_of_int) simp
  then have c: "rnd (of_int n) = of_int n" by (simp add: is_double_iff)
  have "is_double (of_int (5 * n) * 2 powi (- 1))" using assms by (intro is_double_scaled) simp_all
  moreover have "of_int (5 * n) * 2 powi (- 1) = (of_int n :: rat) * (5 / 2)"
    by (simp add: power_int_minus)
  ultimately have "is_double (of_int n * (5 / 2))" by (simp only:)
  then have d: "rnd (of_int n * (5 / 2)) = of_int n * (5 / 2)" by (simp add: is_double_iff)
  show ?thesis by (simp only: c d)
qed

lemma plate_count_largest:
  "plate_count 5003999585967218 (8106479329266893 / 9007199254740992) = 1801439850948198"
  by (simp add: plate_count_def prog_eval)

lemma plate_multiple:
  assumes "0 \<le> w" and "w \<le> 5003999585967218" and "0 \<le> p"
    and "p \<le> 8106479329266893 / 9007199254740992"
  shows "multiple_of_plate (Fin (plate w p))"
proof -
  define n where "n = plate_count w p"
  have n0: "0 \<le> n" unfolding n_def using assms(1,3) by (rule plate_count_nonneg)
  have "n \<le> plate_count 5003999585967218 (8106479329266893 / 9007199254740992)"
    unfolding n_def using assms by (rule plate_count_mono)
  then have n1: "n \<le> 1801439850948198" by (simp only: plate_count_largest)
  have "plate w p = rnd (rnd (of_int n) * (5 / 2))" unfolding plate_def n_def by (rule refl)
  also have "\<dots> = of_int n * (5 / 2)" using n0 n1 by (rule plate_exact)
  finally have pl: "plate w p = of_int n * (5 / 2)" .
  show ?thesis by (simp add: multiple_of_plate_def pl)
qed

lemma warmup_percentages_eval:
  "warmup_percentages =
     [(Fin (1 / 2), 5, ''50% of top set''),
      (Fin (3152519739159347 / 4503599627370496), 3, ''70% of top set''),
      (Fin (3602879701896397 / 4503599627370496), 2, ''80% of top set''),
      (Fin (8106479329266893 / 9007199254740992), 1, ''90% of top set'')]"
  by (simp add: warmup_percentages_def fl_eval)

lemma warmup_sets_finite:
  assumes "fle (Fin 5) rpe" and "fle rpe (Fin 10)" and "0 < w" and "w < 2 ^ 1024"
    and "1 \<le> reps" and "reps \<le> 20"
  shows "calculate_warmup_sets rpe (Fin w) reps = Inr
     [\<lparr>set_number = 1, set_weight = Fin (plate w (1 / 2)), warm_reps = 5,
        description = ''50% of top set''\<rparr>,
      \<lparr>set_number = 2, set_weight = Fin (plate w (3152519739159347 / 4503599627370496)),
        warm_reps = 3, description = ''70% of top set''\<rparr>,
      \<lparr>set_number = 3, set_weight = Fin (plate w (3602879701896397 / 4503599627370496)),
        warm_reps = 2, description = ''80% of top set''\<rparr>,
      \<lparr>set_number = 4, set_weight = Fin (plate w (8106479329266893 / 9007199254740992)),
        warm_reps = 1, description = ''90% of top set''\<rparr>]"
proof -
  have w0: "0 \<le> w" using assms(3) by simp
  have r: "round_to_plate (Fin w) (Fin (1 / 2)) = Inr (Fin (plate w (1 / 2)))"
    "round_to_plate (Fin w) (Fin (3152519739159347 / 4503599627370496))
       = Inr (Fin (plate w (3152519739159347 / 4503599627370496)))"
    "round_to_plate (Fin w) (Fin (3602879701896397 / 4503599627370496))
       = Inr (Fin (plate w (3602879701896397 / 4503599627370496)))"
    "round_to_plate (Fin w) (Fin (8106479329266893 / 9007199254740992))
       = Inr (Fin (plate w (8106479329266893 / 9007199254740992)))"
    by (rule round_to_plate_finite(1) [OF w0 assms(4)]; simp)+
  have "calculate_warmup_sets rpe (Fin w) reps = warmup_loop (Fin w) 1 warmup_percentages []"
    using assms by (simp add: calculate_warmup_sets_def fle_def)
  then show ?thesis
    by (simp add: warmup_percentages_eval warmup_loop_step r pybind_Inr del: warmup_loop.simps(2))
qed

section \<open>The shape of the warm-up sets\<close>

text \<open>
  C4, as stated, fails for weights that no barbell carries. At the weight
  5003999585967219 the fourth count is 1801439850948199, its product with 2.5 no longer
  fits 53 bits and is rounded to 4503599627370498, which is not a multiple of 2.5. An
  infinite weight is above zero and makes \<open>round\<close> raise an OverflowError.
\<close>

theorem warmup_weight_not_multiple:
  "fle (Fin 5) (Fin 8) \<and> fle (Fin 8) (Fin 10) \<and> flt (Fin 0) (Fin 5003999585967219)
   \<and> (1::int) \<le> 5 \<and> (5::int) \<le> 20
   \<and> calculate_warmup_sets (Fin 8) (Fin 5003999585967219) 5 = Inr
     [\<lparr>set_number = 1, set_weight = Fin 2501999792983610, warm_reps = 5, description = ''50% of top set''\<rparr>,
      \<lparr>set_number = 2, set_weight = Fin (7005599420354105 / 2), warm_reps = 3, description = ''70% of top set''\<rparr>,
      \<lparr>set_number = 3, set_weight = Fin 4003199668773775, warm_reps = 2, description = ''80% of top set''\<rparr>,
      \<lparr>set_number = 4, set_weight = Fin 4503599627370498, warm_reps = 1, description = ''90% of top set''\<rparr>]
   \<and> \<not> multiple_of_plate (Fin 4503599627370498)
   \<and> flt (Fin 0) PInf \<and> calculate_warmup_sets (Fin 8) PInf 5 = Inl OverflowError"
  by (simp add: prog_eval cong: pybind_weak_cong)

text \<open>
  C4, amended. For every valid input with a finite weight, \<open>calculate_warmup_sets\<close>
  returns exactly four sets, numbered 1 to 4 in this order, with the repetitions 5, 3, 2,
  1 and the fixed descriptions. Each weight is \<open>round(weight * pct / 2.5) * 2.5\<close> in float
  arithmetic, for \<open>pct\<close> the floats 0.5, 0.7, 0.8 and 0.9. The weights are not negative
  and never decrease from one set to the next. Up to the weight 5003999585967218 each of
  them is a multiple of 2.5.
\<close>

theorem warmup_sets_shape:
  assumes "fle (Fin 5) rpe" and "fle rpe (Fin 10)" and "0 < w" and "w < 2 ^ 1024"
    and "1 \<le> reps" and "reps \<le> 20"
  shows "\<exists>w1 w2 w3 w4.
     calculate_warmup_sets rpe (Fin w) reps = Inr
       [\<lparr>set_number = 1, set_weight = Fin w1, warm_reps = 5, description = ''50% of top set''\<rparr>,
        \<lparr>set_number = 2, set_weight = Fin w2, warm_reps = 3, description = ''70% of top set''\<rparr>,
        \<lparr>set_number = 3, set_weight = Fin w3, warm_reps = 2, description = ''80% of top set''\<rparr>,
        \<lparr>set_number = 4, set_weight = Fin w4, warm_reps = 1, description = ''90% of top set''\<rparr>]
     \<and> round_to_plate (Fin w) (fl (5 / 10)) = Inr (Fin w1)
     \<and> round_to_plate (Fin w) (fl (7 / 10)) = Inr (Fin w2)
     \<and> round_to_plate (Fin w) (fl (8 / 10)) = Inr (Fin w3)
     \<and> round_to_plate (Fin w) (fl (9 / 10)) = Inr (Fin w4)
     \<and> 0 \<le> w1 \<and> w1 \<le> w2 \<and> w2 \<le> w3 \<and> w3 \<le> w4
     \<and> (w \<le> 5003999585967218 \<longrightarrow> multiple_of_plate (Fin w1) \<and> multiple_of_plate (Fin w2)
            \<and> multiple_of_plate (Fin w3) \<and> multiple_of_plate (Fin w4))"
proof -
  define p1 p2 p3 p4 :: rat where "p1 = 1 / 2" and "p2 = 3152519739159347 / 4503599627370496"
    and "p3 = 3602879701896397 / 4503599627370496" and "p4 = 8106479329266893 / 9007199254740992"
  have f: "fl (5 / 10) = Fin p1" "fl (7 / 10) = Fin p2" "fl (8 / 10) = Fin p3" "fl (9 / 10) = Fin p4"
    by (simp_all add: fl_eval p1_def p2_def p3_def p4_def)
  have w0: "0 \<le> w" using assms(3) by simp
  have b: "0 \<le> p1" "p1 \<le> p2" "p2 \<le> p3" "p3 \<le> p4" "p4 \<le> 15 / 16"
    by (simp_all add: p1_def p2_def p3_def p4_def)
  then have u: "p1 \<le> 15 / 16" "p2 \<le> 15 / 16" "p3 \<le> 15 / 16" "0 \<le> p2" "0 \<le> p3" "0 \<le> p4"
    "p1 \<le> p4" "p2 \<le> p4" "p4 \<le> p4"
    by simp_all
  have s: "calculate_warmup_sets rpe (Fin w) reps = Inr
       [\<lparr>set_number = 1, set_weight = Fin (plate w p1), warm_reps = 5, description = ''50% of top set''\<rparr>,
        \<lparr>set_number = 2, set_weight = Fin (plate w p2), warm_reps = 3, description = ''70% of top set''\<rparr>,
        \<lparr>set_number = 3, set_weight = Fin (plate w p3), warm_reps = 2, description = ''80% of top set''\<rparr>,
        \<lparr>set_number = 4, set_weight = Fin (plate w p4), warm_reps = 1, description = ''90% of top set''\<rparr>]"
    unfolding p1_def p2_def p3_def p4_def using assms by (rule warmup_sets_finite)
  have r: "round_to_plate (Fin w) (fl (5 / 10)) = Inr (Fin (plate w p1))"
    "round_to_plate (Fin w) (fl (7 / 10)) = Inr (Fin (plate w p2))"
    "round_to_plate (Fin w) (fl (8 / 10)) = Inr (Fin (plate w p3))"
    "round_to_plate (Fin w) (fl (9 / 10)) = Inr (Fin (plate w p4))"
    unfolding f using w0 assms(4) b u by (simp_all add: round_to_plate_finite(1))
  have m: "0 \<le> plate w p1" "plate w p1 \<le> plate w p2" "plate w p2 \<le> plate w p3"
    "plate w p3 \<le> plate w p4"
    using w0 assms(4) b u by (simp_all add: round_to_plate_finite(2) plate_mono)
  have k: "multiple_of_plate (Fin (plate w p1)) \<and> multiple_of_plate (Fin (plate w p2))
            \<and> multiple_of_plate (Fin (plate w p3)) \<and> multiple_of_plate (Fin (plate w p4))"
    if "w \<le> 5003999585967218"
  proof (intro conjI)
    show "multiple_of_plate (Fin (plate w p1))"
      using w0 that b(1) u(7) unfolding p4_def by (rule plate_multiple)
    show "multiple_of_plate (Fin (plate w p2))"
      using w0 that u(4) u(8) unfolding p4_def by (rule plate_multiple)
    show "multiple_of_plate (Fin (plate w p3))"
      using w0 that u(5) b(4) unfolding p4_def by (rule plate_multiple)
    show "multiple_of_plate (Fin (plate w p4))"
      using w0 that u(6) u(9) unfolding p4_def by (rule plate_multiple)
  qed
  from s r m k show ?thesis by blast
qed

theorem warmup_sets_shape_witness:
  "fle (Fin 5) (Fin 8) \<and> fle (Fin 8) (Fin 10) \<and> (0::rat) < 140 \<and> (140::rat) < 2 ^ 1024
   \<and> (1::int) \<le> 5 \<and> (5::int) \<le> 20 \<and>
   (\<exists>w1 w2 w3 w4.
     calculate_warmup_sets (Fin 8) (Fin 140) 5 = Inr
       [\<lparr>set_number = 1, set_weight = Fin w1, warm_reps = 5, description = ''50% of top set''\<rparr>,
        \<lparr>set_number = 2, set_weight = Fin w2, warm_reps = 3, description = ''70% of top set''\<rparr>,
        \<lparr>set_number = 3, set_weight = Fin w3, warm_reps = 2, description = ''80% of top set''\<rparr>,
        \<lparr>set_number = 4, set_weight = Fin w4, warm_reps = 1, description = ''90% of top set''\<rparr>]
     \<and> round_to_plate (Fin 140) (fl (5 / 10)) = Inr (Fin w1)
     \<and> round_to_plate (Fin 140) (fl (7 / 10)) = Inr (Fin w2)
     \<and> round_to_plate (Fin 140) (fl (8 / 10)) = Inr (Fin w3)
     \<and> round_to_plate (Fin 140) (fl (9 / 10)) = Inr (Fin w4)
     \<and> 0 \<le> w1 \<and> w1 \<le> w2 \<and> w2 \<le> w3 \<and> w3 \<le> w4
     \<and> (140::rat) \<le> 5003999585967218 \<and> multiple_of_plate (Fin w1) \<and> multiple_of_plate (Fin w2)
     \<and> multiple_of_plate (Fin w3) \<and> multiple_of_plate (Fin w4))"
proof -
  have h: "fle (Fin 5) (Fin 8)" "fle (Fin 8) (Fin 10)" "(0::rat) < 140" "(140::rat) < 2 ^ 1024"
    "(1::int) \<le> 5" "(5::int) \<le> 20"
    by (simp_all add: fle_def)
  have b: "(140::rat) \<le> 5003999585967218" by simp
  from warmup_sets_shape [OF h] obtain w1 w2 w3 w4 where
    s: "calculate_warmup_sets (Fin 8) (Fin 140) 5 = Inr
       [\<lparr>set_number = 1, set_weight = Fin w1, warm_reps = 5, description = ''50% of top set''\<rparr>,
        \<lparr>set_number = 2, set_weight = Fin w2, warm_reps = 3, description = ''70% of top set''\<rparr>,
        \<lparr>set_number = 3, set_weight = Fin w3, warm_reps = 2, description = ''80% of top set''\<rparr>,
        \<lparr>set_number = 4, set_weight = Fin w4, warm_reps = 1, description = ''90% of top set''\<rparr>]"
    and r: "round_to_plate (Fin 140) (fl (5 / 10)) = Inr (Fin w1)"
      "round_to_plate (Fin 140) (fl (7 / 10)) = Inr (Fin w2)"
      "round_to_plate (Fin 140) (fl (8 / 10)) = Inr (Fin w3)"
      "round_to_plate (Fin 140) (fl (9 / 10)) = Inr (Fin w4)"
    and m: "0 \<le> w1" "w1 \<le> w2" "w2 \<le> w3" "w3 \<le> w4"
    and k: "(140::rat) \<le> 5003999585967218 \<longrightarrow> multiple_of_plate (Fin w1) \<and> multiple_of_plate (Fin w2)
            \<and> multiple_of_plate (Fin w3) \<and> multiple_of_plate (Fin w4)"
    by blast
  from k b have k': "multiple_of_plate (Fin w1)" "multiple_of_plate (Fin w2)"
    "multiple_of_plate (Fin w3)" "multiple_of_plate (Fin w4)" by blast+
  have "calculate_warmup_sets (Fin 8) (Fin 140) 5 = Inr
       [\<lparr>set_number = 1, set_weight = Fin w1, warm_reps = 5, description = ''50% of top set''\<rparr>,
        \<lparr>set_number = 2, set_weight = Fin w2, warm_reps = 3, description = ''70% of top set''\<rparr>,
        \<lparr>set_number = 3, set_weight = Fin w3, warm_reps = 2, description = ''80% of top set''\<rparr>,
        \<lparr>set_number = 4, set_weight = Fin w4, warm_reps = 1, description = ''90% of top set''\<rparr>]
     \<and> round_to_plate (Fin 140) (fl (5 / 10)) = Inr (Fin w1)
     \<and> round_to_plate (Fin 140) (fl (7 / 10)) = Inr (Fin w2)
     \<and> round_to_plate (Fin 140) (fl (8 / 10)) = Inr (Fin w3)
     \<and> round_to_plate (Fin 140) (fl (9 / 10)) = Inr (Fin w4)
     \<and> 0 \<le> w1 \<and> w1 \<le> w2 \<and> w2 \<le> w3 \<and> w3 \<le> w4
     \<and> (140::rat) \<le> 5003999585967218 \<and> multiple_of_plate (Fin w1) \<and> multiple_of_plate (Fin w2)
     \<and> multiple_of_plate (Fin w3) \<and> multiple_of_plate (Fin w4)"
    using s r m b k' by (intro conjI)
  then have e: "\<exists>w1 w2 w3 w4.
     calculate_warmup_sets (Fin 8) (Fin 140) 5 = Inr
       [\<lparr>set_number = 1, set_weight = Fin w1, warm_reps = 5, description = ''50% of top set''\<rparr>,
        \<lparr>set_number = 2, set_weight = Fin w2, warm_reps = 3, description = ''70% of top set''\<rparr>,
        \<lparr>set_number = 3, set_weight = Fin w3, warm_reps = 2, description = ''80% of top set''\<rparr>,
        \<lparr>set_number = 4, set_weight = Fin w4, warm_reps = 1, description = ''90% of top set''\<rparr>]
     \<and> round_to_plate (Fin 140) (fl (5 / 10)) = Inr (Fin w1)
     \<and> round_to_plate (Fin 140) (fl (7 / 10)) = Inr (Fin w2)
     \<and> round_to_plate (Fin 140) (fl (8 / 10)) = Inr (Fin w3)
     \<and> round_to_plate (Fin 140) (fl (9 / 10)) = Inr (Fin w4)
     \<and> 0 \<le> w1 \<and> w1 \<le> w2 \<and> w2 \<le> w3 \<and> w3 \<le> w4
     \<and> (140::rat) \<le> 5003999585967218 \<and> multiple_of_plate (Fin w1) \<and> multiple_of_plate (Fin w2)
     \<and> multiple_of_plate (Fin w3) \<and> multiple_of_plate (Fin w4)"
    by (intro exI)
  from h e show ?thesis by (intro conjI)
qed

section \<open>Invalid input\<close>

lemma rep_diff_returns:
  assumes "fle (Fin 5) rpe" and "fle rpe (Fin 10)" and "t \<in> set [1..15]"
  shows "\<exists>d. rep_diff weight rpe t = Inr d"
proof -
  have "t \<in> {1..15}" using assms(3) unfolding set_upto .
  then have "1 \<le> t" "t \<le> 2 ^ 1023" by simp_all
  from rep_diff_valid [OF assms(1,2) this, of weight] show ?thesis by blast
qed

lemma predict_max_reps_returns:
  assumes "\<not> fle weight (Fin 0)" and "fle (Fin 5) rpe" and "fle rpe (Fin 10)"
  shows "\<exists>r. predict_max_reps weight rpe = Inr r \<and> 1 \<le> r \<and> r \<le> 15"
proof -
  define ts :: "int list" where "ts = [1..15]"
  have "\<forall>t\<in>set ts. \<exists>d. rep_diff weight rpe t = Inr d"
    unfolding ts_def using assms(2,3) by (intro ballI rep_diff_returns)
  from search_loop_total [OF this, of PInf 1]
  obtain r where r: "search_loop weight rpe ts PInf 1 = Inr r" "r = 1 \<or> r \<in> set ts" by blast
  have "set ts = {1..15}" unfolding ts_def by (rule set_upto)
  with r(2) have "1 \<le> r \<and> r \<le> 15" by auto
  moreover have "predict_max_reps weight rpe = search_loop weight rpe ts PInf 1"
    unfolding ts_def using assms by (simp only: predict_max_reps_def if_False simp_thms)
  ultimately show ?thesis using r(1) by simp
qed

lemma predict_max_reps_raises:
  assumes "fle weight (Fin 0) \<or> \<not> (fle (Fin 5) rpe \<and> fle rpe (Fin 10))"
  shows "predict_max_reps weight rpe = Inl (ValueError ''Weight must be positive'')
         \<or> predict_max_reps weight rpe = Inl (ValueError ''RPE must be 5.0-10.0'')"
proof (cases "fle weight (Fin 0)")
  case True
  then show ?thesis by (simp only: predict_max_reps_def if_True simp_thms)
next
  case False
  with assms have "\<not> (fle (Fin 5) rpe \<and> fle rpe (Fin 10))" by simp
  with False show ?thesis by (simp only: predict_max_reps_def if_True if_False simp_thms)
qed

lemma calculate_warmup_sets_raises:
  assumes "\<not> (fle (Fin 5) rpe \<and> fle rpe (Fin 10)) \<or> fle weight (Fin 0) \<or> \<not> (1 \<le> reps \<and> reps \<le> 20)"
  shows "invalid_input (calculate_warmup_sets rpe weight reps)"
  using assms by (auto simp add: calculate_warmup_sets_def invalid_input_def)

text \<open>
  C5, as stated, fails on the two weights that are no numbers of kilograms. An infinite
  weight is in range, yet \<open>calculate_warmup_sets\<close> raises an OverflowError, which is not
  the error of the specification. A NaN weight is not at most zero, yet
  \<open>calculate_warmup_sets\<close> raises a ValueError, from \<open>round\<close>.
\<close>

theorem warmup_overflow:
  "fle (Fin 5) (Fin 8) \<and> fle (Fin 8) (Fin 10) \<and> flt (Fin 0) PInf \<and> (1::int) \<le> 5 \<and> (5::int) \<le> 20
   \<and> calculate_warmup_sets (Fin 8) PInf 5 = Inl OverflowError
   \<and> \<not> fle NaN (Fin 0)
   \<and> calculate_warmup_sets (Fin 8) NaN 5 = Inl (ValueError ''cannot convert float NaN to integer'')"
  by (simp add: prog_eval cong: pybind_weak_cong)

text \<open>
  C5, amended. On a finite weight \<open>calculate_warmup_sets\<close> raises a ValueError exactly when
  the RPE, as given, is outside 5 to 10, or the weight is at most zero, or the rep count
  is outside 1 to 20, and it returns exactly when none of the three holds. On every
  weight \<open>predict_max_reps\<close> raises a ValueError exactly when the weight is at most zero or
  the RPE is outside 5 to 10, and returns exactly otherwise.
\<close>

theorem invalid_input_exactly:
  assumes "\<bar>w\<bar> < 2 ^ 1024"
  shows "(invalid_input (calculate_warmup_sets rpe (Fin w) reps) \<longleftrightarrow>
            \<not> (fle (Fin 5) rpe \<and> fle rpe (Fin 10)) \<or> w \<le> 0 \<or> \<not> (1 \<le> reps \<and> reps \<le> 20))
         \<and> (returns_normally (calculate_warmup_sets rpe (Fin w) reps) \<longleftrightarrow>
            fle (Fin 5) rpe \<and> fle rpe (Fin 10) \<and> 0 < w \<and> 1 \<le> reps \<and> reps \<le> 20)
         \<and> (invalid_input (predict_max_reps weight rpe) \<longleftrightarrow>
            fle weight (Fin 0) \<or> \<not> (fle (Fin 5) rpe \<and> fle rpe (Fin 10)))
         \<and> (returns_normally (predict_max_reps weight rpe) \<longleftrightarrow>
            \<not> fle weight (Fin 0) \<and> fle (Fin 5) rpe \<and> fle rpe (Fin 10))"
proof -
  define bad where "bad \<longleftrightarrow> \<not> (fle (Fin 5) rpe \<and> fle rpe (Fin 10)) \<or> w \<le> 0 \<or> \<not> (1 \<le> reps \<and> reps \<le> 20)"
  define bad' where "bad' \<longleftrightarrow> fle weight (Fin 0) \<or> \<not> (fle (Fin 5) rpe \<and> fle rpe (Fin 10))"
  have c: "invalid_input (calculate_warmup_sets rpe (Fin w) reps) = bad
           \<and> returns_normally (calculate_warmup_sets rpe (Fin w) reps) = (\<not> bad)"
  proof (cases bad)
    case True
    then have "\<not> (fle (Fin 5) rpe \<and> fle rpe (Fin 10)) \<or> fle (Fin w) (Fin 0) \<or> \<not> (1 \<le> reps \<and> reps \<le> 20)"
      by (simp add: bad_def fle_def)
    then have i: "invalid_input (calculate_warmup_sets rpe (Fin w) reps)"
      by (rule calculate_warmup_sets_raises)
    then have "\<not> returns_normally (calculate_warmup_sets rpe (Fin w) reps)"
      by (auto simp add: invalid_input_def returns_normally_def split: sum.splits)
    with i True show ?thesis by simp
  next
    case False
    then have v: "fle (Fin 5) rpe" "fle rpe (Fin 10)" "0 < w" "1 \<le> reps" "reps \<le> 20"
      by (simp_all add: bad_def)
    have "w < 2 ^ 1024" using assms by simp
    from warmup_sets_finite [OF v(1,2,3) this v(4,5)] False show ?thesis
      by (simp add: invalid_input_def returns_normally_def)
  qed
  have p: "invalid_input (predict_max_reps weight rpe) = bad'
           \<and> returns_normally (predict_max_reps weight rpe) = (\<not> bad')"
  proof (cases bad')
    case True
    then have "predict_max_reps weight rpe = Inl (ValueError ''Weight must be positive'')
         \<or> predict_max_reps weight rpe = Inl (ValueError ''RPE must be 5.0-10.0'')"
      unfolding bad'_def by (rule predict_max_reps_raises)
    with True show ?thesis by (auto simp add: invalid_input_def returns_normally_def)
  next
    case False
    then have "\<not> fle weight (Fin 0)" "fle (Fin 5) rpe" "fle rpe (Fin 10)" by (simp_all add: bad'_def)
    from predict_max_reps_returns [OF this] False show ?thesis
      by (auto simp add: invalid_input_def returns_normally_def)
  qed
  from c p show ?thesis unfolding bad_def bad'_def by (simp only: de_Morgan_disj not_not not_le) blast
qed

theorem invalid_input_exactly_witness:
  "\<bar>140 :: rat\<bar> < 2 ^ 1024 \<and> \<bar>- 1 :: rat\<bar> < 2 ^ 1024
   \<and> returns_normally (calculate_warmup_sets (Fin 8) (Fin 140) 5)
   \<and> \<not> invalid_input (calculate_warmup_sets (Fin 8) (Fin 140) 5)
   \<and> invalid_input (calculate_warmup_sets (Fin (19 / 4)) (Fin 140) 5)
   \<and> invalid_input (calculate_warmup_sets (Fin 8) (Fin (- 1)) 5)
   \<and> invalid_input (calculate_warmup_sets (Fin 8) (Fin 140) 21)
   \<and> returns_normally (predict_max_reps (Fin 100) (Fin 9))
   \<and> \<not> invalid_input (predict_max_reps (Fin 100) (Fin 9))
   \<and> invalid_input (predict_max_reps (Fin 0) (Fin 9))
   \<and> invalid_input (predict_max_reps (Fin 100) (Fin 11))"
proof -
  have h: "\<bar>140 :: rat\<bar> < 2 ^ 1024" "\<bar>- 1 :: rat\<bar> < 2 ^ 1024" by simp_all
  have a: "returns_normally (calculate_warmup_sets (Fin 8) (Fin 140) 5)"
    "\<not> invalid_input (calculate_warmup_sets (Fin 8) (Fin 140) 5)"
    "returns_normally (predict_max_reps (Fin 100) (Fin 9))"
    "\<not> invalid_input (predict_max_reps (Fin 100) (Fin 9))"
    using invalid_input_exactly [OF h(1), where rpe = "Fin 8" and reps = 5]
      invalid_input_exactly [OF h(1), where weight = "Fin 100" and rpe = "Fin 9"]
    by (simp_all add: fle_def)
  have b: "invalid_input (calculate_warmup_sets (Fin (19 / 4)) (Fin 140) 5)"
    using invalid_input_exactly [OF h(1), where rpe = "Fin (19 / 4)" and reps = 5]
    by (simp add: fle_def)
  have c: "invalid_input (calculate_warmup_sets (Fin 8) (Fin (- 1)) 5)"
    using invalid_input_exactly [OF h(2), where rpe = "Fin 8" and reps = 5]
    by (simp add: fle_def)
  have d: "invalid_input (calculate_warmup_sets (Fin 8) (Fin 140) 21)"
    using invalid_input_exactly [OF h(1), where rpe = "Fin 8" and reps = 21]
    by (simp add: fle_def)
  have e: "invalid_input (predict_max_reps (Fin 0) (Fin 9))"
    using invalid_input_exactly [OF h(1), where weight = "Fin 0" and rpe = "Fin 9"]
    by (simp add: fle_def)
  have f: "invalid_input (predict_max_reps (Fin 100) (Fin 11))"
    using invalid_input_exactly [OF h(1), where weight = "Fin 100" and rpe = "Fin 11"]
    by (simp add: fle_def)
  from h a(1,2) b c d a(3,4) e f show ?thesis by (intro conjI)
qed

end
